theory Spec2Isabelle
  imports Main "HOL-Library.Word"
begin

section \<open>Data model\<close>

text \<open>
  The classes \<open>Sensor\<close> (SensorBase.h) and \<open>Variable\<close> (VariableBase.h) are used by
  VariableArray.h through pointers.  An object is modelled by a record that carries its
  address (its identity) beside the attributes VariableArray.h reads through accessors:
  \<open>getSensorName()\<close>, \<open>getSensorLocation()\<close>, \<open>getDreamHost()\<close>, \<open>getValueString()\<close>
  and the public field \<open>parentSensor\<close>.
\<close>

record Sensor =
  sensorAddr :: nat
  getSensorName :: string
  getSensorLocation :: string

record Variable =
  varAddr :: nat
  parentSensor :: Sensor
  getDreamHost :: string
  getValueString :: string

text \<open>
  The two data members of \<open>VariableArray\<close>: \<open>uint8_t _variableCount\<close> and
  \<open>Variable **_variableList\<close>.  The list is the caller's array, whose length the
  class does not know.
\<close>

record VariableArray =
  m_variableCount :: "8 word"
  m_variableList :: "Variable list"

text \<open>
  \<open>_variableList[i]\<close>.  A read at or past the end of the caller's array is undefined
  behaviour in C++; the model returns \<open>None\<close> there, and every function that reads the
  array passes it on.
\<close>

definition var_at :: "VariableArray \<Rightarrow> nat \<Rightarrow> Variable option" where
  "var_at a i = (if i < length (m_variableList a) then Some (m_variableList a ! i) else None)"

text \<open>
  \<open>init(int variableCount, Variable *variableList[])\<close>: the assignment
  \<open>_variableCount = variableCount\<close> converts an \<open>int\<close> to \<open>uint8_t\<close>, that is
  modulo \<open>2^8\<close>.  (The Serial prints of \<open>init\<close> are marked "for debugging" and
  are left out.)
\<close>

definition init :: "int \<Rightarrow> Variable list \<Rightarrow> VariableArray" where
  "init variableCount variableList =
     \<lparr> m_variableCount = word_of_int variableCount, m_variableList = variableList \<rparr>"

definition getVariableCount :: "VariableArray \<Rightarrow> int" where
  "getVariableCount a = uint (m_variableCount a)"

section \<open>The deduplicator\<close>

text \<open>
  The loop of \<open>isLastVarFromSensor\<close>, from \<open>j\<close> on:
  \<open>for (int j = arrayIndex + 1; j < _variableCount; j++)\<close>.  The index is an
  \<open>int\<close> that never exceeds 255, so it is a \<open>nat\<close> here.  The function is
  protected; its callers pass the index of their own loop, which is never negative.
\<close>

function isLast_loop :: "VariableArray \<Rightarrow> string \<Rightarrow> string \<Rightarrow> nat \<Rightarrow> bool option" where
  "isLast_loop a sensName sensLoc j =
     (if j < unat (m_variableCount a) then
        (case var_at a j of
           None \<Rightarrow> None
         | Some v \<Rightarrow>
             if sensName = getSensorName (parentSensor v) \<and>
                sensLoc = getSensorLocation (parentSensor v)
             then Some False
             else isLast_loop a sensName sensLoc (j + 1))
      else Some True)"
  by pat_completeness auto
termination
  by (relation "measure (\<lambda>(a, sensName, sensLoc, j). unat (m_variableCount a) - j)") auto

declare isLast_loop.simps [simp del]

definition isLastVarFromSensor :: "VariableArray \<Rightarrow> nat \<Rightarrow> bool option" where
  "isLastVarFromSensor a arrayIndex =
     (case var_at a arrayIndex of
        None \<Rightarrow> None
      | Some v \<Rightarrow>
          isLast_loop a (getSensorName (parentSensor v)) (getSensorLocation (parentSensor v))
            (arrayIndex + 1))"

text \<open>
  \<open>getSensorCount\<close>: \<open>int numSensors = 1\<close>, incremented at every index where
  \<open>isLastVarFromSensor\<close> holds.  The counter never exceeds 256, so no \<open>int\<close> overflows.
\<close>

function sensorCount_loop :: "VariableArray \<Rightarrow> nat \<Rightarrow> int \<Rightarrow> int option" where
  "sensorCount_loop a i numSensors =
     (if i < unat (m_variableCount a) then
        (case isLastVarFromSensor a i of
           None \<Rightarrow> None
         | Some b \<Rightarrow> sensorCount_loop a (i + 1) (if b then numSensors + 1 else numSensors))
      else Some numSensors)"
  by pat_completeness auto
termination
  by (relation "measure (\<lambda>(a, i, numSensors). unat (m_variableCount a) - i)") auto

declare sensorCount_loop.simps [simp del]

definition getSensorCount :: "VariableArray \<Rightarrow> int option" where
  "getSensorCount a = sensorCount_loop a 0 1"

section \<open>The sensors and variables as external collaborators\<close>

text \<open>
  \<open>Sensor::setup\<close>, \<open>sleep\<close>, \<open>wake\<close>, \<open>update\<close> and \<open>Variable::setup\<close> are defined
  outside VariableArray.h (SensorBase.h, VariableBase.h); each returns a \<open>bool\<close>.
  They are a parameter of the model: a \<open>hardware\<close> answers a call from the history of
  the calls made so far and their results.  Every run of the program is a run against
  some such function, since a history occurs once in a run.  The name and the location
  of a sensor are fixed attributes of it.  The world records every call with its result,
  and what \<open>setupSensors\<close> prints on \<open>Serial\<close>: \<open>BeginningSetup\<close> is "Beginning setup for sensors and variables...",
  \<open>SetupFailed h\<close> is "   ... Set up of h failed!" and
  \<open>SetupSuccess\<close> is "   ... Success!".
\<close>

datatype call =
    SensorSetup Sensor
  | SensorSleep Sensor
  | SensorWake Sensor
  | SensorUpdate Sensor
  | VariableSetup Variable

datatype serial_msg = BeginningSetup | SetupFailed string | SetupSuccess

type_synonym call_log = "(call \<times> bool) list"

type_synonym hardware = "call_log \<Rightarrow> call \<Rightarrow> bool"

record world =
  calls :: call_log
  serial :: "serial_msg list"

definition invoke :: "hardware \<Rightarrow> call \<Rightarrow> world \<Rightarrow> bool \<times> world" where
  "invoke hw c w = (hw (calls w) c, w\<lparr>calls := calls w @ [(c, hw (calls w) c)]\<rparr>)"

definition serial_print :: "serial_msg \<Rightarrow> world \<Rightarrow> world" where
  "serial_print m w = w\<lparr>serial := serial w @ [m]\<rparr>"

section \<open>The array orchestrator\<close>

subsection \<open>setupSensors\<close>

text \<open>
  The inner loop \<open>while (setupTries < 5)\<close> at handle \<open>i\<close>.  \<open>setupTries\<close> and
  \<open>sensorSuccess\<close> are declared once, before the \<open>for\<close> loop, so they come in from
  the previous handle and go out to the next.
\<close>

function setup_while ::
  "hardware \<Rightarrow> VariableArray \<Rightarrow> nat \<Rightarrow> int \<Rightarrow> bool \<Rightarrow> world \<Rightarrow> (int \<times> bool \<times> world) option" where
  "setup_while hw a i setupTries sensorSuccess w =
     (if setupTries < 5 then
        (case var_at a i of
           None \<Rightarrow> None
         | Some v \<Rightarrow>
             (case invoke hw (SensorSetup (parentSensor v)) w of
                (r, w') \<Rightarrow>
                  if r then Some (setupTries, True, w')
                  else setup_while hw a i (setupTries + 1) False w'))
      else Some (setupTries, sensorSuccess, w))"
  by pat_completeness auto
termination
  by (relation "measure (\<lambda>(hw, a, i, setupTries, sensorSuccess, w). nat (5 - setupTries))") auto

declare setup_while.simps [simp del]

text \<open>The first \<open>for\<close> loop of \<open>setupSensors\<close>, from handle \<open>i\<close> on.\<close>

function setup_loop ::
  "hardware \<Rightarrow> VariableArray \<Rightarrow> nat \<Rightarrow> bool \<Rightarrow> bool \<Rightarrow> int \<Rightarrow> world \<Rightarrow> (bool \<times> world) option" where
  "setup_loop hw a i success sensorSuccess setupTries w =
     (if i < unat (m_variableCount a) then
        (case setup_while hw a i setupTries sensorSuccess w of
           None \<Rightarrow> None
         | Some (setupTries', sensorSuccess', w1) \<Rightarrow>
             (case (if \<not> sensorSuccess'
                    then (case var_at a i of
                            None \<Rightarrow> None
                          | Some v \<Rightarrow> Some (serial_print (SetupFailed (getDreamHost v)) w1))
                    else Some w1) of
                None \<Rightarrow> None
              | Some w2 \<Rightarrow>
                  setup_loop hw a (i + 1) (success \<and> sensorSuccess') sensorSuccess' setupTries' w2))
      else Some (success, w))"
  by pat_completeness auto
termination
  by (relation "measure (\<lambda>(hw, a, i, success, sensorSuccess, setupTries, w).
        unat (m_variableCount a) - i)") auto

declare setup_loop.simps [simp del]

text \<open>The second \<open>for\<close> loop: \<open>success &= _variableList[i]->setup()\<close>.\<close>

function attach_loop ::
  "hardware \<Rightarrow> VariableArray \<Rightarrow> nat \<Rightarrow> bool \<Rightarrow> world \<Rightarrow> (bool \<times> world) option" where
  "attach_loop hw a i success w =
     (if i < unat (m_variableCount a) then
        (case var_at a i of
           None \<Rightarrow> None
         | Some v \<Rightarrow>
             (case invoke hw (VariableSetup v) w of
                (r, w') \<Rightarrow> attach_loop hw a (i + 1) (success \<and> r) w'))
      else Some (success, w))"
  by pat_completeness auto
termination
  by (relation "measure (\<lambda>(hw, a, i, success, w). unat (m_variableCount a) - i)") auto

declare attach_loop.simps [simp del]

definition setupSensors :: "hardware \<Rightarrow> VariableArray \<Rightarrow> world \<Rightarrow> (bool \<times> world) option" where
  "setupSensors hw a w =
     (case setup_loop hw a 0 True False 0 (serial_print BeginningSetup w) of
        None \<Rightarrow> None
      | Some (success, w1) \<Rightarrow>
          (case attach_loop hw a 0 success w1 of
             None \<Rightarrow> None
           | Some (success', w2) \<Rightarrow>
               Some (success', if success' then serial_print SetupSuccess w2 else w2)))"

subsection \<open>sensorsSleep and sensorsWake\<close>

function sleep_loop ::
  "hardware \<Rightarrow> VariableArray \<Rightarrow> nat \<Rightarrow> bool \<Rightarrow> world \<Rightarrow> (bool \<times> world) option" where
  "sleep_loop hw a i success w =
     (if i < unat (m_variableCount a) then
        (case isLastVarFromSensor a i of
           None \<Rightarrow> None
         | Some True \<Rightarrow>
             (case var_at a i of
                None \<Rightarrow> None
              | Some v \<Rightarrow>
                  (case invoke hw (SensorSleep (parentSensor v)) w of
                     (r, w') \<Rightarrow> sleep_loop hw a (i + 1) (success \<and> r) w'))
         | Some False \<Rightarrow> sleep_loop hw a (i + 1) success w)
      else Some (success, w))"
  by pat_completeness auto
termination
  by (relation "measure (\<lambda>(hw, a, i, success, w). unat (m_variableCount a) - i)") auto

declare sleep_loop.simps [simp del]

definition sensorsSleep :: "hardware \<Rightarrow> VariableArray \<Rightarrow> world \<Rightarrow> (bool \<times> world) option" where
  "sensorsSleep hw a w = sleep_loop hw a 0 True w"

function wake_loop ::
  "hardware \<Rightarrow> VariableArray \<Rightarrow> nat \<Rightarrow> bool \<Rightarrow> world \<Rightarrow> (bool \<times> world) option" where
  "wake_loop hw a i success w =
     (if i < unat (m_variableCount a) then
        (case isLastVarFromSensor a i of
           None \<Rightarrow> None
         | Some True \<Rightarrow>
             (case var_at a i of
                None \<Rightarrow> None
              | Some v \<Rightarrow>
                  (case invoke hw (SensorWake (parentSensor v)) w of
                     (r, w') \<Rightarrow> wake_loop hw a (i + 1) (success \<and> r) w'))
         | Some False \<Rightarrow> wake_loop hw a (i + 1) success w)
      else Some (success, w))"
  by pat_completeness auto
termination
  by (relation "measure (\<lambda>(hw, a, i, success, w). unat (m_variableCount a) - i)") auto

declare wake_loop.simps [simp del]

definition sensorsWake :: "hardware \<Rightarrow> VariableArray \<Rightarrow> world \<Rightarrow> (bool \<times> world) option" where
  "sensorsWake hw a w = wake_loop hw a 0 True w"

subsection \<open>updateAllSensors\<close>

text \<open>
  The loop index is a \<open>uint8_t\<close> here.  In \<open>i < _variableCount\<close> both sides are
  promoted to \<open>int\<close>, which compares them as unsigned bytes.
\<close>

function update_loop ::
  "hardware \<Rightarrow> VariableArray \<Rightarrow> 8 word \<Rightarrow> bool \<Rightarrow> world \<Rightarrow> (bool \<times> world) option" where
  "update_loop hw a i update_success w =
     (if i < m_variableCount a then
        (case isLastVarFromSensor a (unat i) of
           None \<Rightarrow> None
         | Some True \<Rightarrow>
             (case var_at a (unat i) of
                None \<Rightarrow> None
              | Some v \<Rightarrow>
                  (case invoke hw (SensorUpdate (parentSensor v)) w of
                     (r, w') \<Rightarrow> update_loop hw a (i + 1) r w'))
         | Some False \<Rightarrow> update_loop hw a (i + 1) update_success w)
      else Some (update_success, w))"
  by pat_completeness auto
termination
  by (relation "measure (\<lambda>(hw, a, i, update_success, w). unat (m_variableCount a) - unat i)")
     (auto, unat_arith+)

declare update_loop.simps [simp del]

text \<open>
  \<open>bool success = true; bool update_success = true;\<close> the loop;
  \<open>success &= update_success; return success;\<close>
\<close>

definition updateAllSensors :: "hardware \<Rightarrow> VariableArray \<Rightarrow> world \<Rightarrow> (bool \<times> world) option" where
  "updateAllSensors hw a w =
     (case update_loop hw a 0 True w of
        None \<Rightarrow> None
      | Some (update_success, w') \<Rightarrow> Some (True \<and> update_success, w'))"

subsection \<open>generateSensorDataCSV\<close>

text \<open>
  \<open>i + 1 != _variableCount\<close> is computed in \<open>int\<close> after promotion of both bytes.
\<close>

function csv_loop :: "VariableArray \<Rightarrow> 8 word \<Rightarrow> string \<Rightarrow> string option" where
  "csv_loop a i csvString =
     (if i < m_variableCount a then
        (case var_at a (unat i) of
           None \<Rightarrow> None
         | Some v \<Rightarrow>
             csv_loop a (i + 1)
               (if uint i + 1 \<noteq> uint (m_variableCount a)
                then (csvString @ getValueString v) @ '', ''
                else csvString @ getValueString v))
      else Some csvString)"
  by pat_completeness auto
termination
  by (relation "measure (\<lambda>(a, i, csvString). unat (m_variableCount a) - unat i)")
     (auto, unat_arith+)

declare csv_loop.simps [simp del]

definition generateSensorDataCSV :: "VariableArray \<Rightarrow> string option" where
  "generateSensorDataCSV a = csv_loop a 0 []"

section \<open>The logging clock (LoggerBase.h)\<close>

text \<open>
  \<open>#define EPOCH_TIME_OFF 946684800\<close>, with the comment "This is 2000-jan-01 00:00:00
  in epoch time": the RTC library counts seconds from 2000-01-01 00:00:00.
\<close>

definition EPOCH_TIME_OFF :: int where
  "EPOCH_TIME_OFF = 946684800"

text \<open>
  Modelled from the spec: the bodies of \<open>Logger::getNowEpoch\<close>, \<open>Logger::markTime\<close>,
  \<open>Logger::checkInterval\<close> and \<open>Logger::checkMarkedInterval\<close>.  LoggerBase.h only declares
  them; LoggerBase.cpp is not among the sources.  The fields are those of the class
  (\<open>_timeZone\<close> and \<open>_offset\<close> are \<open>int8_t\<close> hours, \<open>markedEpochTime\<close> is a \<open>uint32_t\<close>), the
  interval is the constructor's \<open>loggingIntervalMinutes\<close>, and \<open>loggingStartEpoch\<close> is the
  instant the spec calls "since logging started".  Following section 4.3 of the spec: the
  corrected epoch time is the RTC's count of seconds since 2000 plus the 30-year offset
  plus the timezone and RTC offsets; the test is "epoch time modulo (interval length in
  seconds) is zero, or the current epoch time is still within the first 15 minutes since
  logging started".
\<close>

record Logger =
  timeZone :: int
  tzOffset :: int
  loggingIntervalMinutes :: nat
  loggingStartEpoch :: int
  markedEpochTime :: int

text \<open>
  Modelled from the spec: \<open>Logger::getNowEpoch\<close> (body in LoggerBase.cpp).  The RTC counts
  seconds from 2000; the corrected epoch time adds \<open>EPOCH_TIME_OFF\<close> and both offsets.
\<close>

definition getNowEpoch :: "Logger \<Rightarrow> int \<Rightarrow> int" where
  "getNowEpoch lg rtcSeconds =
     rtcSeconds + EPOCH_TIME_OFF + 3600 * timeZone lg + 3600 * tzOffset lg"

text \<open>
  Modelled from the spec: \<open>Logger::markTime\<close> (body in LoggerBase.cpp), which stores the
  current corrected time as the marked timestamp.
\<close>

definition markTime :: "Logger \<Rightarrow> int \<Rightarrow> Logger" where
  "markTime lg rtcSeconds = lg\<lparr>markedEpochTime := getNowEpoch lg rtcSeconds\<rparr>"

text \<open>
  Modelled from the spec: the grace window of \<open>checkInterval\<close> and
  \<open>checkMarkedInterval\<close>, "within the first 15 minutes since logging started".
\<close>

definition withinFirst15Minutes :: "Logger \<Rightarrow> int \<Rightarrow> bool" where
  "withinFirst15Minutes lg now =
     (loggingStartEpoch lg \<le> now \<and> now < loggingStartEpoch lg + 15 * 60)"

text \<open>
  Modelled from the spec: \<open>Logger::checkInterval\<close> (body in LoggerBase.cpp), the test on
  the current time.
\<close>

definition checkInterval :: "Logger \<Rightarrow> int \<Rightarrow> bool" where
  "checkInterval lg rtcSeconds =
     (getNowEpoch lg rtcSeconds mod (60 * int (loggingIntervalMinutes lg)) = 0 \<or>
      withinFirst15Minutes lg (getNowEpoch lg rtcSeconds))"

text \<open>
  Modelled from the spec: \<open>Logger::checkMarkedInterval\<close> (body in LoggerBase.cpp), the
  test on the marked time, with the grace window on the current time.
\<close>

definition checkMarkedInterval :: "Logger \<Rightarrow> int \<Rightarrow> bool" where
  "checkMarkedInterval lg rtcSeconds =
     (markedEpochTime lg mod (60 * int (loggingIntervalMinutes lg)) = 0 \<or>
      withinFirst15Minutes lg (getNowEpoch lg rtcSeconds))"

text \<open>
  The Gregorian calendar, to say what the constant \<open>EPOCH_TIME_OFF\<close> is: the seconds
  between the first instants of two years.
\<close>

definition isLeapYear :: "nat \<Rightarrow> bool" where
  "isLeapYear y = (y mod 4 = 0 \<and> (y mod 100 \<noteq> 0 \<or> y mod 400 = 0))"

definition daysInYear :: "nat \<Rightarrow> int" where
  "daysInYear y = (if isLeapYear y then 366 else 365)"

definition secondsBetweenYears :: "nat \<Rightarrow> nat \<Rightarrow> int" where
  "secondsBetweenYears y1 y2 = 24 * 60 * 60 * sum_list (map daysInYear [y1..<y2])"

text \<open>
  A logger in UTC with an RTC in UTC, a 15-minute interval, started at the first instant
  of 2017 (epoch 1483228800).
\<close>

definition exampleLogger :: Logger where
  "exampleLogger = \<lparr> timeZone = 0, tzOffset = 0, loggingIntervalMinutes = 15,
                      loggingStartEpoch = 1483228800, markedEpochTime = 0 \<rparr>"

section \<open>Notions used to state the properties\<close>

text \<open>The identity of a sensor for deduplication: its (name, location) pair.\<close>

definition sensorKey :: "Variable \<Rightarrow> string \<times> string" where
  "sensorKey v = (getSensorName (parentSensor v), getSensorLocation (parentSensor v))"

text \<open>The canonical indices: those below the count where \<open>isLastVarFromSensor\<close> is true.\<close>

definition canonicalIndices :: "VariableArray \<Rightarrow> nat list" where
  "canonicalIndices a =
     filter (\<lambda>i. isLastVarFromSensor a i = Some True) [0..<unat (m_variableCount a)]"

text \<open>
  What a hardware answers when the calls \<open>cs\<close> are made one after the other, after
  the history \<open>h\<close>: the entries they add to the log.
\<close>

fun answers :: "hardware \<Rightarrow> call_log \<Rightarrow> call list \<Rightarrow> call_log" where
  "answers hw h [] = []"
| "answers hw h (c # cs) = (c, hw h c) # answers hw (h @ [(c, hw h c)]) cs"

text \<open>Text fields joined by the two characters comma and space, with none after the last.\<close>

fun csv_join :: "string list \<Rightarrow> string" where
  "csv_join [] = []"
| "csv_join [x] = x"
| "csv_join (x # y # ys) = x @ '', '' @ csv_join (y # ys)"

section \<open>Example data\<close>

text \<open>
  Three variables: the first two are measured by the same sensor, the third by another.
\<close>

definition sensorA :: Sensor where
  "sensorA = \<lparr> sensorAddr = 1, getSensorName = ''DS18'', getSensorLocation = ''D4'' \<rparr>"

definition sensorB :: Sensor where
  "sensorB = \<lparr> sensorAddr = 2, getSensorName = ''MaxBotix'', getSensorLocation = ''D5'' \<rparr>"

definition var1 :: Variable where
  "var1 = \<lparr> varAddr = 1, parentSensor = sensorA, getDreamHost = ''h1'', getValueString = ''v1'' \<rparr>"

definition var2 :: Variable where
  "var2 = \<lparr> varAddr = 2, parentSensor = sensorA, getDreamHost = ''h2'', getValueString = ''v2'' \<rparr>"

definition var3 :: Variable where
  "var3 = \<lparr> varAddr = 3, parentSensor = sensorB, getDreamHost = ''h3'', getValueString = ''v3'' \<rparr>"

definition exampleArray :: VariableArray where
  "exampleArray = init 3 [var1, var2, var3]"

text \<open>A hardware on which every call succeeds, and the world before any call.\<close>

definition allSucceed :: hardware where
  "allSucceed h c = True"

definition world0 :: world where
  "world0 = \<lparr> calls = [], serial = [] \<rparr>"

text \<open>A hardware on which every call on \<open>sensorA\<close> fails and every other call succeeds.\<close>

definition sensorAFails :: hardware where
  "sensorAFails h c =
     (case c of
        SensorSetup s \<Rightarrow> s \<noteq> sensorA
      | SensorSleep s \<Rightarrow> s \<noteq> sensorA
      | SensorWake s \<Rightarrow> s \<noteq> sensorA
      | SensorUpdate s \<Rightarrow> s \<noteq> sensorA
      | VariableSetup v \<Rightarrow> True)"

text \<open>A hardware on which the very first call fails and every later call succeeds.\<close>

definition firstCallFails :: hardware where
  "firstCallFails h c = (h \<noteq> [])"

text \<open>A hardware on which the first \<open>n\<close> calls fail and every later call succeeds.\<close>

definition failsFirst :: "nat \<Rightarrow> hardware" where
  "failsFirst n h c = (n \<le> length h)"

section \<open>The deduplicator: proofs\<close>

lemma isLast_loop_spec:
  assumes "unat (m_variableCount a) \<le> length (m_variableList a)"
  shows "isLast_loop a sensName sensLoc j =
     Some (\<forall>k. j \<le> k \<and> k < unat (m_variableCount a) \<longrightarrow>
             (sensName, sensLoc) \<noteq> sensorKey (m_variableList a ! k))"
  using assms
proof (induction a sensName sensLoc j rule: isLast_loop.induct)
  case (1 a sensName sensLoc j)
  let ?n = "unat (m_variableCount a)"
  let ?key = "\<lambda>k. sensorKey (m_variableList a ! k)"
  show ?case
  proof (cases "j < ?n")
    case False
    then show ?thesis by (subst isLast_loop.simps) auto
  next
    case True
    with "1.prems" have v: "var_at a j = Some (m_variableList a ! j)"
      by (simp add: var_at_def)
    show ?thesis
    proof (cases "(sensName, sensLoc) = ?key j")
      case hit: True
      have "isLast_loop a sensName sensLoc j = Some False"
        using True v hit by (subst isLast_loop.simps) (simp add: sensorKey_def)
      moreover have "\<not> (\<forall>k. j \<le> k \<and> k < ?n \<longrightarrow> (sensName, sensLoc) \<noteq> ?key k)"
        using True hit by blast
      ultimately show ?thesis by simp
    next
      case miss: False
      then have miss': "\<not> (sensName = getSensorName (parentSensor (m_variableList a ! j)) \<and>
                sensLoc = getSensorLocation (parentSensor (m_variableList a ! j)))"
        by (simp add: sensorKey_def)
      have "isLast_loop a sensName sensLoc j = isLast_loop a sensName sensLoc (j + 1)"
        using True v miss' by (subst isLast_loop.simps) auto
      also have "\<dots> = Some (\<forall>k. j + 1 \<le> k \<and> k < ?n \<longrightarrow> (sensName, sensLoc) \<noteq> ?key k)"
        using "1.IH"[OF True v miss' "1.prems"] .
      also have "(\<forall>k. j + 1 \<le> k \<and> k < ?n \<longrightarrow> (sensName, sensLoc) \<noteq> ?key k) =
           (\<forall>k. j \<le> k \<and> k < ?n \<longrightarrow> (sensName, sensLoc) \<noteq> ?key k)"
        using miss by (metis Suc_eq_plus1 Suc_leI le_neq_implies_less le_simps(3) less_or_eq_imp_le)
      finally show ?thesis .
    qed
  qed
qed

lemma isLastVarFromSensor_spec:
  assumes "unat (m_variableCount a) \<le> length (m_variableList a)"
    and "i < unat (m_variableCount a)"
  shows "isLastVarFromSensor a i =
     Some (\<forall>j. i < j \<and> j < unat (m_variableCount a) \<longrightarrow>
             sensorKey (m_variableList a ! j) \<noteq> sensorKey (m_variableList a ! i))"
proof -
  have v: "var_at a i = Some (m_variableList a ! i)"
    using assms by (simp add: var_at_def)
  have "isLastVarFromSensor a i =
      Some (\<forall>k. i + 1 \<le> k \<and> k < unat (m_variableCount a) \<longrightarrow>
             sensorKey (m_variableList a ! i) \<noteq> sensorKey (m_variableList a ! k))"
    using isLast_loop_spec [OF assms(1)]
    by (simp add: isLastVarFromSensor_def v sensorKey_def)
  moreover have "(\<forall>k. i + 1 \<le> k \<and> k < unat (m_variableCount a) \<longrightarrow>
             sensorKey (m_variableList a ! i) \<noteq> sensorKey (m_variableList a ! k)) =
      (\<forall>j. i < j \<and> j < unat (m_variableCount a) \<longrightarrow>
             sensorKey (m_variableList a ! j) \<noteq> sensorKey (m_variableList a ! i))"
    by (metis Suc_eq_plus1 Suc_leI Suc_le_lessD)
  ultimately show ?thesis by simp
qed

lemma exampleArray_simps:
  "unat (m_variableCount exampleArray) = 3"
  "m_variableList exampleArray = [var1, var2, var3]"
  by (simp_all add: exampleArray_def init_def)

lemma example_keys:
  "sensorKey var1 = (''DS18'', ''D4'')"
  "sensorKey var2 = (''DS18'', ''D4'')"
  "sensorKey var3 = (''MaxBotix'', ''D5'')"
  by (simp_all add: sensorKey_def var1_def var2_def var3_def sensorA_def sensorB_def)

section \<open>The loops in closed form\<close>

text \<open>
  Each loop is characterised for an array whose caller's list holds at least
  \<open>_variableCount\<close> handles, so that no read leaves the list.
\<close>

lemma map_fst_answers: "map fst (answers hw h cs) = cs"
  by (induction cs arbitrary: h) simp_all

lemma sleep_loop_spec:
  assumes wf: "unat (m_variableCount a) \<le> length (m_variableList a)"
  shows "i \<le> unat (m_variableCount a) \<Longrightarrow>
     sleep_loop hw a i success w =
       Some (success \<and> (\<forall>e \<in> set (answers hw (calls w)
                 (map (\<lambda>k. SensorSleep (parentSensor (m_variableList a ! k)))
                    (filter (\<lambda>k. isLastVarFromSensor a k = Some True)
                       [i..<unat (m_variableCount a)]))). snd e),
             w\<lparr>calls := calls w @ answers hw (calls w)
                 (map (\<lambda>k. SensorSleep (parentSensor (m_variableList a ! k)))
                    (filter (\<lambda>k. isLastVarFromSensor a k = Some True)
                       [i..<unat (m_variableCount a)]))\<rparr>)"
proof (induction "unat (m_variableCount a) - i" arbitrary: i success w)
  case 0
  then have "i = unat (m_variableCount a)" by simp
  then show ?case by (subst sleep_loop.simps) simp
next
  case (Suc d)
  let ?n = "unat (m_variableCount a)"
  from Suc.hyps(2) have lt: "i < ?n" by simp
  then have upt: "[i..<?n] = i # [i + 1..<?n]" by (simp add: upt_conv_Cons)
  have v: "var_at a i = Some (m_variableList a ! i)"
    using lt wf by (simp add: var_at_def)
  from isLastVarFromSensor_spec [OF wf lt]
  obtain b where b: "isLastVarFromSensor a i = Some b" by blast
  have d: "d = ?n - (i + 1)" using Suc.hyps(2) by simp
  have le: "i + 1 \<le> ?n" using lt by simp
  show ?case
  proof (cases b)
    case False
    with b have "sleep_loop hw a i success w = sleep_loop hw a (i + 1) success w"
      using lt by (subst sleep_loop.simps) simp
    then show ?thesis
      using Suc.hyps(1) [OF d le, of success w] b False by (simp add: upt)
  next
    case True
    let ?c = "SensorSleep (parentSensor (m_variableList a ! i))"
    let ?r = "hw (calls w) ?c"
    let ?w' = "w\<lparr>calls := calls w @ [(?c, ?r)]\<rparr>"
    from True b have "sleep_loop hw a i success w = sleep_loop hw a (i + 1) (success \<and> ?r) ?w'"
      using lt v by (subst sleep_loop.simps) (simp add: invoke_def)
    then show ?thesis
      using Suc.hyps(1) [OF d le, of "success \<and> ?r" ?w'] b True by (auto simp add: upt)
  qed
qed

lemma wake_loop_spec:
  assumes wf: "unat (m_variableCount a) \<le> length (m_variableList a)"
  shows "i \<le> unat (m_variableCount a) \<Longrightarrow>
     wake_loop hw a i success w =
       Some (success \<and> (\<forall>e \<in> set (answers hw (calls w)
                 (map (\<lambda>k. SensorWake (parentSensor (m_variableList a ! k)))
                    (filter (\<lambda>k. isLastVarFromSensor a k = Some True)
                       [i..<unat (m_variableCount a)]))). snd e),
             w\<lparr>calls := calls w @ answers hw (calls w)
                 (map (\<lambda>k. SensorWake (parentSensor (m_variableList a ! k)))
                    (filter (\<lambda>k. isLastVarFromSensor a k = Some True)
                       [i..<unat (m_variableCount a)]))\<rparr>)"
proof (induction "unat (m_variableCount a) - i" arbitrary: i success w)
  case 0
  then have "i = unat (m_variableCount a)" by simp
  then show ?case by (subst wake_loop.simps) simp
next
  case (Suc d)
  let ?n = "unat (m_variableCount a)"
  from Suc.hyps(2) have lt: "i < ?n" by simp
  then have upt: "[i..<?n] = i # [i + 1..<?n]" by (simp add: upt_conv_Cons)
  have v: "var_at a i = Some (m_variableList a ! i)"
    using lt wf by (simp add: var_at_def)
  from isLastVarFromSensor_spec [OF wf lt]
  obtain b where b: "isLastVarFromSensor a i = Some b" by blast
  have d: "d = ?n - (i + 1)" using Suc.hyps(2) by simp
  have le: "i + 1 \<le> ?n" using lt by simp
  show ?case
  proof (cases b)
    case False
    with b have "wake_loop hw a i success w = wake_loop hw a (i + 1) success w"
      using lt by (subst wake_loop.simps) simp
    then show ?thesis
      using Suc.hyps(1) [OF d le, of success w] b False by (simp add: upt)
  next
    case True
    let ?c = "SensorWake (parentSensor (m_variableList a ! i))"
    let ?r = "hw (calls w) ?c"
    let ?w' = "w\<lparr>calls := calls w @ [(?c, ?r)]\<rparr>"
    from True b have "wake_loop hw a i success w = wake_loop hw a (i + 1) (success \<and> ?r) ?w'"
      using lt v by (subst wake_loop.simps) (simp add: invoke_def)
    then show ?thesis
      using Suc.hyps(1) [OF d le, of "success \<and> ?r" ?w'] b True by (auto simp add: upt)
  qed
qed

lemma word8_succ: "(i::8 word) < c \<Longrightarrow> unat (i + 1) = unat i + 1"
  by unat_arith

lemma answers_Nil_iff [simp]: "(answers hw h cs = []) = (cs = [])"
  by (cases cs) simp_all

lemma update_loop_spec:
  assumes wf: "unat (m_variableCount a) \<le> length (m_variableList a)"
  shows "update_loop hw a i update_success w =
       Some (if filter (\<lambda>k. isLastVarFromSensor a k = Some True)
                       [unat i..<unat (m_variableCount a)] = [] then update_success
             else snd (last (answers hw (calls w)
                 (map (\<lambda>k. SensorUpdate (parentSensor (m_variableList a ! k)))
                    (filter (\<lambda>k. isLastVarFromSensor a k = Some True)
                       [unat i..<unat (m_variableCount a)])))),
             w\<lparr>calls := calls w @ answers hw (calls w)
                 (map (\<lambda>k. SensorUpdate (parentSensor (m_variableList a ! k)))
                    (filter (\<lambda>k. isLastVarFromSensor a k = Some True)
                       [unat i..<unat (m_variableCount a)]))\<rparr>)"
proof (induction "unat (m_variableCount a) - unat i" arbitrary: i update_success w)
  case 0
  then have ge: "unat (m_variableCount a) \<le> unat i" by simp
  then have nlt: "\<not> i < m_variableCount a" by (simp add: word_less_nat_alt)
  from ge have e: "[unat i..<unat (m_variableCount a)] = []" by simp
  show ?case unfolding e by (subst update_loop.simps) (simp add: nlt)
next
  case (Suc d)
  let ?n = "unat (m_variableCount a)"
  from Suc.hyps(2) have lt: "unat i < ?n" by simp
  then have wlt: "i < m_variableCount a" by (simp add: word_less_nat_alt)
  have succ: "unat (i + 1) = unat i + 1" by (rule word8_succ [OF wlt])
  from lt have upt: "[unat i..<?n] = unat i # [unat i + 1..<?n]" by (simp add: upt_conv_Cons)
  have v: "var_at a (unat i) = Some (m_variableList a ! unat i)"
    using lt wf by (simp add: var_at_def)
  from isLastVarFromSensor_spec [OF wf lt]
  obtain b where b: "isLastVarFromSensor a (unat i) = Some b" by blast
  have d: "d = ?n - unat (i + 1)" using Suc.hyps(2) succ by simp
  show ?case
  proof (cases b)
    case False
    with b have "update_loop hw a i update_success w = update_loop hw a (i + 1) update_success w"
      using wlt by (subst update_loop.simps) simp
    then show ?thesis
      using Suc.hyps(1) [OF d, of update_success w] b False by (simp add: upt succ)
  next
    case True
    let ?c = "SensorUpdate (parentSensor (m_variableList a ! unat i))"
    let ?r = "hw (calls w) ?c"
    let ?w' = "w\<lparr>calls := calls w @ [(?c, ?r)]\<rparr>"
    from True b have "update_loop hw a i update_success w = update_loop hw a (i + 1) ?r ?w'"
      using wlt v by (subst update_loop.simps) (simp add: invoke_def)
    then show ?thesis
      using Suc.hyps(1) [OF d, of ?r ?w'] b True by (auto simp add: upt succ)
  qed
qed

lemma sensorCount_loop_spec:
  assumes wf: "unat (m_variableCount a) \<le> length (m_variableList a)"
  shows "i \<le> unat (m_variableCount a) \<Longrightarrow>
     sensorCount_loop a i numSensors =
       Some (numSensors + int (length (filter (\<lambda>k. isLastVarFromSensor a k = Some True)
                       [i..<unat (m_variableCount a)])))"
proof (induction "unat (m_variableCount a) - i" arbitrary: i numSensors)
  case 0
  then have "i = unat (m_variableCount a)" by simp
  then show ?case by (subst sensorCount_loop.simps) simp
next
  case (Suc d)
  let ?n = "unat (m_variableCount a)"
  from Suc.hyps(2) have lt: "i < ?n" by simp
  then have upt: "[i..<?n] = i # [i + 1..<?n]" by (simp add: upt_conv_Cons)
  from isLastVarFromSensor_spec [OF wf lt]
  obtain b where b: "isLastVarFromSensor a i = Some b" by blast
  have d: "d = ?n - (i + 1)" using Suc.hyps(2) by simp
  have le: "i + 1 \<le> ?n" using lt by simp
  have "sensorCount_loop a i numSensors =
        sensorCount_loop a (i + 1) (if b then numSensors + 1 else numSensors)"
    using lt b by (subst sensorCount_loop.simps) simp
  then show ?case
    using Suc.hyps(1) [OF d le, of "if b then numSensors + 1 else numSensors"] b
    by (simp add: upt)
qed

lemma attach_loop_spec:
  assumes wf: "unat (m_variableCount a) \<le> length (m_variableList a)"
  shows "i \<le> unat (m_variableCount a) \<Longrightarrow>
     attach_loop hw a i success w =
       Some (success \<and> (\<forall>e \<in> set (answers hw (calls w)
                 (map (\<lambda>k. VariableSetup (m_variableList a ! k)) [i..<unat (m_variableCount a)])). snd e),
             w\<lparr>calls := calls w @ answers hw (calls w)
                 (map (\<lambda>k. VariableSetup (m_variableList a ! k)) [i..<unat (m_variableCount a)])\<rparr>)"
proof (induction "unat (m_variableCount a) - i" arbitrary: i success w)
  case 0
  then have "i = unat (m_variableCount a)" by simp
  then show ?case by (subst attach_loop.simps) simp
next
  case (Suc d)
  let ?n = "unat (m_variableCount a)"
  from Suc.hyps(2) have lt: "i < ?n" by simp
  then have upt: "[i..<?n] = i # [i + 1..<?n]" by (simp add: upt_conv_Cons)
  have v: "var_at a i = Some (m_variableList a ! i)"
    using lt wf by (simp add: var_at_def)
  have d: "d = ?n - (i + 1)" using Suc.hyps(2) by simp
  have le: "i + 1 \<le> ?n" using lt by simp
  let ?c = "VariableSetup (m_variableList a ! i)"
  let ?r = "hw (calls w) ?c"
  let ?w' = "w\<lparr>calls := calls w @ [(?c, ?r)]\<rparr>"
  have "attach_loop hw a i success w = attach_loop hw a (i + 1) (success \<and> ?r) ?w'"
    using lt v by (subst attach_loop.simps) (simp add: invoke_def)
  then show ?case
    using Suc.hyps(1) [OF d le, of "success \<and> ?r" ?w'] by (auto simp add: upt)
qed

lemma csv_loop_spec:
  assumes wf: "unat (m_variableCount a) \<le> length (m_variableList a)"
  shows "csv_loop a i csvString =
       Some (csvString @ concat (map (\<lambda>k. getValueString (m_variableList a ! k) @
                (if k + 1 \<noteq> unat (m_variableCount a) then '', '' else []))
               [unat i..<unat (m_variableCount a)]))"
proof (induction "unat (m_variableCount a) - unat i" arbitrary: i csvString)
  case 0
  then have ge: "unat (m_variableCount a) \<le> unat i" by simp
  then have nlt: "\<not> i < m_variableCount a" by (simp add: word_less_nat_alt)
  from ge have e: "[unat i..<unat (m_variableCount a)] = []" by simp
  show ?case unfolding e by (subst csv_loop.simps) (simp add: nlt)
next
  case (Suc d)
  let ?n = "unat (m_variableCount a)"
  from Suc.hyps(2) have lt: "unat i < ?n" by simp
  then have wlt: "i < m_variableCount a" by (simp add: word_less_nat_alt)
  have succ: "unat (i + 1) = unat i + 1" by (rule word8_succ [OF wlt])
  from lt have upt: "[unat i..<?n] = unat i # [unat i + 1..<?n]" by (simp add: upt_conv_Cons)
  have v: "var_at a (unat i) = Some (m_variableList a ! unat i)"
    using lt wf by (simp add: var_at_def)
  have d: "d = ?n - unat (i + 1)" using Suc.hyps(2) succ by simp
  have cond: "(uint i + 1 \<noteq> uint (m_variableCount a)) = (unat i + 1 \<noteq> ?n)"
  proof -
    have "uint i = int (unat i)" "uint (m_variableCount a) = int (unat (m_variableCount a))"
      by simp_all
    then show ?thesis by linarith
  qed
  show ?case
    by (subst csv_loop.simps) (simp add: wlt v cond Suc.hyps(1) [OF d] upt succ)
qed

lemma csv_concat_join:
  "concat (map (\<lambda>k. f k @ (if k + 1 \<noteq> n then '', '' else [])) [i..<n]) = csv_join (map f [i..<n])"
proof (induction "n - i" arbitrary: i)
  case 0
  then show ?case by simp
next
  case (Suc d)
  then have lt: "i < n" by simp
  then have upt: "[i..<n] = i # [i + 1..<n]" by (simp add: upt_conv_Cons)
  have d: "d = n - (i + 1)" using Suc.hyps(2) by simp
  show ?case
  proof (cases "i + 1 = n")
    case True
    then show ?thesis by (simp add: upt)
  next
    case False
    with lt have "[i + 1..<n] = (i + 1) # [i + 2..<n]" by (simp add: upt_conv_Cons)
    then show ?thesis
      using Suc.hyps(1) [OF d] False by (simp add: upt)
  qed
qed

lemma map_nth_take:
  "n \<le> length xs \<Longrightarrow> map (\<lambda>k. g (xs ! k)) [0..<n] = map g (take n xs)"
  by (simp add: list_eq_iff_nth_eq)

lemma generateSensorDataCSV_spec:
  assumes wf: "unat (m_variableCount a) \<le> length (m_variableList a)"
  shows "generateSensorDataCSV a =
     Some (csv_join (map getValueString (take (unat (m_variableCount a)) (m_variableList a))))"
  using csv_loop_spec [OF wf, of 0 "[]"] csv_concat_join [of "\<lambda>k. getValueString (m_variableList a ! k)" "unat (m_variableCount a)" 0]
    map_nth_take [OF wf, of getValueString]
  by (simp add: generateSensorDataCSV_def)

subsection \<open>Canonical indices\<close>

lemma canonical_set:
  assumes wf: "unat (m_variableCount a) \<le> length (m_variableList a)"
  shows "set (canonicalIndices a) =
     {i. i < unat (m_variableCount a) \<and>
         (\<forall>j. i < j \<and> j < unat (m_variableCount a) \<longrightarrow>
              sensorKey (m_variableList a ! j) \<noteq> sensorKey (m_variableList a ! i))}"
  using isLastVarFromSensor_spec [OF wf]
  by (auto simp add: canonicalIndices_def)

lemma distinct_canonical: "distinct (canonicalIndices a)"
  by (simp add: canonicalIndices_def)

lemma last_occurrence:
  fixes key :: "nat \<Rightarrow> 'k"
  assumes "k < n"
  obtains m where "m < n" "key m = key k" "\<forall>j. m < j \<and> j < n \<longrightarrow> key j \<noteq> key k"
proof -
  let ?S = "{i. i < n \<and> key i = key k}"
  have fin: "finite ?S" by simp
  have ne: "?S \<noteq> {}" using assms by blast
  let ?m = "Max ?S"
  have "?m \<in> ?S" using Max_in [OF fin ne] .
  moreover have "\<forall>j. ?m < j \<and> j < n \<longrightarrow> key j \<noteq> key k"
  proof (intro allI impI)
    fix j assume j: "?m < j \<and> j < n"
    show "key j \<noteq> key k"
    proof
      assume "key j = key k"
      with j have "j \<in> ?S" by simp
      then have "j \<le> ?m" using Max_ge [OF fin] by blast
      with j show False by simp
    qed
  qed
  ultimately show ?thesis using that by blast
qed

lemma canonical_once:
  assumes wf: "unat (m_variableCount a) \<le> length (m_variableList a)"
    and k: "k < unat (m_variableCount a)"
  shows "length (filter (\<lambda>i. sensorKey (m_variableList a ! i) = sensorKey (m_variableList a ! k))
           (canonicalIndices a)) = 1"
proof -
  let ?n = "unat (m_variableCount a)"
  let ?key = "\<lambda>i. sensorKey (m_variableList a ! i)"
  obtain m where m: "m < ?n" "?key m = ?key k" "\<forall>j. m < j \<and> j < ?n \<longrightarrow> ?key j \<noteq> ?key k"
    using last_occurrence [OF k, of ?key] by blast
  let ?xs = "filter (\<lambda>i. ?key i = ?key k) (canonicalIndices a)"
  have "set ?xs = {m}"
  proof (rule set_eqI)
    fix i
    show "(i \<in> set ?xs) = (i \<in> {m})"
    proof
      assume "i \<in> set ?xs"
      then have i: "i < ?n" "?key i = ?key k" "\<forall>j. i < j \<and> j < ?n \<longrightarrow> ?key j \<noteq> ?key i"
        using canonical_set [OF wf] by auto
      have "\<not> i < m" using i(2,3) m(1,2) by metis
      moreover have "\<not> m < i" using i(1,2) m(3) by metis
      ultimately show "i \<in> {m}" by simp
    next
      assume "i \<in> {m}"
      then show "i \<in> set ?xs" using m by (simp add: canonical_set [OF wf])
    qed
  qed
  moreover have "distinct ?xs" by (simp add: distinct_canonical)
  ultimately have "length ?xs = card {m}" by (metis distinct_card)
  then show ?thesis by simp
qed

lemma canonical_card:
  assumes wf: "unat (m_variableCount a) \<le> length (m_variableList a)"
  shows "length (canonicalIndices a) =
     card (sensorKey ` set (take (unat (m_variableCount a)) (m_variableList a)))"
proof -
  let ?n = "unat (m_variableCount a)"
  let ?key = "\<lambda>i. sensorKey (m_variableList a ! i)"
  let ?C = "set (canonicalIndices a)"
  have inj: "inj_on ?key ?C"
  proof (rule inj_onI)
    fix i j assume i: "i \<in> ?C" and j: "j \<in> ?C" and eq: "?key i = ?key j"
    from i have i': "i < ?n" "\<forall>k. i < k \<and> k < ?n \<longrightarrow> ?key k \<noteq> ?key i"
      by (simp_all add: canonical_set [OF wf])
    from j have j': "j < ?n" "\<forall>k. j < k \<and> k < ?n \<longrightarrow> ?key k \<noteq> ?key j"
      by (simp_all add: canonical_set [OF wf])
    have "\<not> i < j" using i'(2) j'(1) eq by metis
    moreover have "\<not> j < i" using j'(2) i'(1) eq by metis
    ultimately show "i = j" by simp
  qed
  have img: "?key ` ?C = ?key ` {0..<?n}"
  proof
    show "?key ` ?C \<subseteq> ?key ` {0..<?n}"
      by (auto simp add: canonical_set [OF wf])
  next
    show "?key ` {0..<?n} \<subseteq> ?key ` ?C"
    proof
      fix x assume "x \<in> ?key ` {0..<?n}"
      then obtain k where k: "k < ?n" "x = ?key k" by auto
      obtain m where m: "m < ?n" "?key m = ?key k" "\<forall>j. m < j \<and> j < ?n \<longrightarrow> ?key j \<noteq> ?key k"
        using last_occurrence [OF k(1), of ?key] by blast
      then have "m \<in> ?C" by (simp add: canonical_set [OF wf])
      with m(2) k(2) show "x \<in> ?key ` ?C" by (metis imageI)
    qed
  qed
  have "sensorKey ` set (take ?n (m_variableList a)) = ?key ` {0..<?n}"
  proof -
    have "take ?n (m_variableList a) = map (\<lambda>k. m_variableList a ! k) [0..<?n]"
      using map_nth_take [OF wf, of "\<lambda>v. v"] by simp
    then have "set (take ?n (m_variableList a)) = (\<lambda>k. m_variableList a ! k) ` {0..<?n}"
      by (metis set_map set_upt)
    then show ?thesis by (simp add: image_image)
  qed
  then have "card (sensorKey ` set (take ?n (m_variableList a))) = card (?key ` ?C)"
    using img by simp
  also have "\<dots> = card ?C" by (rule card_image [OF inj])
  also have "\<dots> = length (canonicalIndices a)"
    by (rule distinct_card [OF distinct_canonical])
  finally show ?thesis by simp
qed

lemma canonical_last:
  assumes wf: "unat (m_variableCount a) \<le> length (m_variableList a)"
    and pos: "0 < unat (m_variableCount a)"
  shows "canonicalIndices a \<noteq> [] \<and> last (canonicalIndices a) = unat (m_variableCount a) - 1"
proof -
  let ?n = "unat (m_variableCount a)"
  let ?P = "\<lambda>k. isLastVarFromSensor a k = Some True"
  have upt: "[0..<?n] = [0..<?n - 1] @ [?n - 1]"
    using pos by (metis Suc_diff_1 upt_Suc_append zero_le)
  have "\<forall>j. \<not> (?n - 1 < j \<and> j < ?n)" by auto
  then have "?P (?n - 1)"
    using isLastVarFromSensor_spec [OF wf, of "?n - 1"] pos by auto
  then have "canonicalIndices a = filter ?P [0..<?n - 1] @ [?n - 1]"
    unfolding canonicalIndices_def by (subst upt) simp
  then show ?thesis by simp
qed

subsection \<open>The two passes of setupSensors\<close>

lemma setup_while_no_retry:
  assumes wf: "unat (m_variableCount a) \<le> length (m_variableList a)"
    and ok: "\<forall>h s. hw h (SensorSetup s)"
    and i: "i < unat (m_variableCount a)"
    and tries: "setupTries < 5"
  shows "setup_while hw a i setupTries sensorSuccess w =
     Some (setupTries, True,
           w\<lparr>calls := calls w @ [(SensorSetup (parentSensor (m_variableList a ! i)), True)]\<rparr>)"
proof -
  have v: "var_at a i = Some (m_variableList a ! i)"
    using i wf by (simp add: var_at_def)
  show ?thesis
    using tries v ok by (subst setup_while.simps) (simp add: invoke_def)
qed

lemma setup_loop_no_retry:
  assumes wf: "unat (m_variableCount a) \<le> length (m_variableList a)"
    and ok: "\<forall>h s. hw h (SensorSetup s)"
    and tries: "setupTries < 5"
  shows "i \<le> unat (m_variableCount a) \<Longrightarrow>
     setup_loop hw a i success sensorSuccess setupTries w =
       Some (success,
             w\<lparr>calls := calls w @
                 map (\<lambda>k. (SensorSetup (parentSensor (m_variableList a ! k)), True))
                   [i..<unat (m_variableCount a)]\<rparr>)"
proof (induction "unat (m_variableCount a) - i" arbitrary: i success sensorSuccess w)
  case 0
  then have "i = unat (m_variableCount a)" by simp
  then show ?case by (subst setup_loop.simps) simp
next
  case (Suc d)
  let ?n = "unat (m_variableCount a)"
  from Suc.hyps(2) have lt: "i < ?n" by simp
  then have upt: "[i..<?n] = i # [i + 1..<?n]" by (simp add: upt_conv_Cons)
  have d: "d = ?n - (i + 1)" using Suc.hyps(2) by simp
  have le: "i + 1 \<le> ?n" using lt by simp
  let ?w' = "w\<lparr>calls := calls w @ [(SensorSetup (parentSensor (m_variableList a ! i)), True)]\<rparr>"
  have "setup_loop hw a i success sensorSuccess setupTries w =
        setup_loop hw a (i + 1) success True setupTries ?w'"
    using lt by (subst setup_loop.simps) (simp add: setup_while_no_retry [OF wf ok lt tries])
  then show ?case
    using Suc.hyps(1) [OF d le, of success True ?w'] by (simp add: upt)
qed

lemma setupSensors_no_retry:
  assumes wf: "unat (m_variableCount a) \<le> length (m_variableList a)"
    and ok: "\<forall>h s. hw h (SensorSetup s)"
  shows "\<exists>b w'. setupSensors hw a w = Some (b, w') \<and>
     map fst (calls w') = map fst (calls w) @
        map (\<lambda>v. SensorSetup (parentSensor v)) (take (unat (m_variableCount a)) (m_variableList a)) @
        map VariableSetup (take (unat (m_variableCount a)) (m_variableList a))"
proof -
  let ?n = "unat (m_variableCount a)"
  let ?w0 = "serial_print BeginningSetup w"
  have c0: "calls ?w0 = calls w" by (simp add: serial_print_def)
  have one: "setup_loop hw a 0 True False 0 ?w0 =
       Some (True, ?w0\<lparr>calls := calls ?w0 @
                 map (\<lambda>k. (SensorSetup (parentSensor (m_variableList a ! k)), True)) [0..<?n]\<rparr>)"
    by (rule setup_loop_no_retry [OF wf ok]) simp_all
  let ?w1 = "?w0\<lparr>calls := calls ?w0 @
                 map (\<lambda>k. (SensorSetup (parentSensor (m_variableList a ! k)), True)) [0..<?n]\<rparr>"
  note two = attach_loop_spec [OF wf, of 0 hw True ?w1]
  have s1: "map (\<lambda>k. SensorSetup (parentSensor (m_variableList a ! k))) [0..<?n] =
        map (\<lambda>v. SensorSetup (parentSensor v)) (take ?n (m_variableList a))"
    by (rule map_nth_take [OF wf])
  have s2: "map (\<lambda>k. VariableSetup (m_variableList a ! k)) [0..<?n] =
        map VariableSetup (take ?n (m_variableList a))"
    by (rule map_nth_take [OF wf])
  let ?A = "answers hw (calls ?w1) (map (\<lambda>k. VariableSetup (m_variableList a ! k)) [0..<?n])"
  let ?w2 = "?w1\<lparr>calls := calls ?w1 @ ?A\<rparr>"
  let ?b = "\<forall>e \<in> set ?A. snd e"
  have run: "setupSensors hw a w = Some (?b, if ?b then serial_print SetupSuccess ?w2 else ?w2)"
    by (simp add: setupSensors_def one two)
  have "map fst (calls (if ?b then serial_print SetupSuccess ?w2 else ?w2)) =
      map fst (calls w) @
        map (\<lambda>v. SensorSetup (parentSensor v)) (take ?n (m_variableList a)) @
        map VariableSetup (take ?n (m_variableList a))"
    using s1 s2 by (simp add: serial_print_def map_fst_answers comp_def)
  with run show ?thesis by blast
qed

lemma setup_while_spec:
  assumes wf: "unat (m_variableCount a) \<le> length (m_variableList a)"
    and i: "i < unat (m_variableCount a)"
  shows "(5 \<le> setupTries \<longrightarrow> \<not> sensorSuccess) \<Longrightarrow>
     \<exists>setupTries' sensorSuccess' S.
       setup_while hw a i setupTries sensorSuccess w =
         Some (setupTries', sensorSuccess', w\<lparr>calls := calls w @ S\<rparr>) \<and>
       (5 \<le> setupTries' \<longrightarrow> \<not> sensorSuccess') \<and>
       (\<forall>e \<in> set S. fst e = SensorSetup (parentSensor (m_variableList a ! i))) \<and>
       filter snd S =
         (if sensorSuccess' then [(SensorSetup (parentSensor (m_variableList a ! i)), True)] else [])"
proof (induction "nat (5 - setupTries)" arbitrary: setupTries sensorSuccess w)
  case 0
  then have ge: "\<not> setupTries < 5" by simp
  with 0 have "\<not> sensorSuccess" by simp
  moreover have "setup_while hw a i setupTries sensorSuccess w =
      Some (setupTries, sensorSuccess, w\<lparr>calls := calls w @ []\<rparr>)"
    using ge by (subst setup_while.simps) simp
  ultimately show ?case using ge by (intro exI [of _ setupTries] exI [of _ sensorSuccess] exI [of _ "[]"]) simp
next
  case (Suc d)
  then have lt: "setupTries < 5" by simp
  have v: "var_at a i = Some (m_variableList a ! i)"
    using i wf by (simp add: var_at_def)
  let ?c = "SensorSetup (parentSensor (m_variableList a ! i))"
  let ?r = "hw (calls w) ?c"
  let ?w' = "w\<lparr>calls := calls w @ [(?c, ?r)]\<rparr>"
  show ?case
  proof (cases ?r)
    case True
    then have "setup_while hw a i setupTries sensorSuccess w =
        Some (setupTries, True, w\<lparr>calls := calls w @ [(?c, True)]\<rparr>)"
      using lt v by (subst setup_while.simps) (simp add: invoke_def)
    then show ?thesis
      using lt by (intro exI [of _ setupTries] exI [of _ True] exI [of _ "[(?c, True)]"]) simp
  next
    case False
    then have step: "setup_while hw a i setupTries sensorSuccess w =
        setup_while hw a i (setupTries + 1) False ?w'"
      using lt v by (subst setup_while.simps) (simp add: invoke_def)
    have d: "d = nat (5 - (setupTries + 1))" using Suc.hyps(2) by simp
    from Suc.hyps(1) [OF d, of False ?w']
    obtain t' s' S where r:
      "setup_while hw a i (setupTries + 1) False ?w' = Some (t', s', ?w'\<lparr>calls := calls ?w' @ S\<rparr>)"
      "5 \<le> t' \<longrightarrow> \<not> s'"
      "\<forall>e \<in> set S. fst e = ?c"
      "filter snd S = (if s' then [(?c, True)] else [])"
      by auto
    show ?thesis
      using step r False
      by (intro exI [of _ t'] exI [of _ s'] exI [of _ "(?c, ?r) # S"]) simp
  qed
qed

lemma setup_loop_spec:
  assumes wf: "unat (m_variableCount a) \<le> length (m_variableList a)"
  shows "i \<le> unat (m_variableCount a) \<Longrightarrow> (5 \<le> setupTries \<longrightarrow> \<not> sensorSuccess) \<Longrightarrow>
     \<exists>b S F.
       setup_loop hw a i success sensorSuccess setupTries w =
         Some (success \<and> b, w\<lparr>calls := calls w @ S, serial := serial w @ F\<rparr>) \<and>
       (\<forall>e \<in> set S. \<exists>k < unat (m_variableCount a).
            fst e = SensorSetup (parentSensor (m_variableList a ! k))) \<and>
       (\<forall>m \<in> set F. \<exists>k < unat (m_variableCount a).
            m = SetupFailed (getDreamHost (m_variableList a ! k))) \<and>
       b = (F = []) \<and>
       b = (map fst (filter snd S) =
              map (\<lambda>k. SensorSetup (parentSensor (m_variableList a ! k)))
                [i..<unat (m_variableCount a)]) \<and>
       length (filter snd S) \<le> unat (m_variableCount a) - i"
proof (induction "unat (m_variableCount a) - i" arbitrary: i success sensorSuccess setupTries w)
  case 0
  then have "i = unat (m_variableCount a)" by simp
  then have "setup_loop hw a i success sensorSuccess setupTries w =
      Some (success \<and> True, w\<lparr>calls := calls w @ [], serial := serial w @ []\<rparr>)"
    by (subst setup_loop.simps) simp
  then show ?case
    using \<open>i = unat (m_variableCount a)\<close>
    by (intro exI [of _ True] exI [of _ "[]"]) simp
next
  case (Suc d)
  let ?n = "unat (m_variableCount a)"
  from Suc.hyps(2) have lt: "i < ?n" by simp
  then have upt: "[i..<?n] = i # [i + 1..<?n]" by (simp add: upt_conv_Cons)
  have d: "d = ?n - (i + 1)" using Suc.hyps(2) by simp
  have le: "i + 1 \<le> ?n" using lt by simp
  have v: "var_at a i = Some (m_variableList a ! i)"
    using lt wf by (simp add: var_at_def)
  let ?c = "SensorSetup (parentSensor (m_variableList a ! i))"
  from setup_while_spec [OF wf lt Suc.prems(2), where hw = hw and w = w]
  obtain t1 s1 S1 where w1:
    "setup_while hw a i setupTries sensorSuccess w = Some (t1, s1, w\<lparr>calls := calls w @ S1\<rparr>)"
    "5 \<le> t1 \<longrightarrow> \<not> s1"
    "\<forall>e \<in> set S1. fst e = ?c"
    "filter snd S1 = (if s1 then [(?c, True)] else [])"
    by blast
  let ?F1 = "if s1 then [] else [SetupFailed (getDreamHost (m_variableList a ! i))]"
  let ?w2 = "w\<lparr>calls := calls w @ S1, serial := serial w @ ?F1\<rparr>"
  have step: "setup_loop hw a i success sensorSuccess setupTries w =
      setup_loop hw a (i + 1) (success \<and> s1) s1 t1 ?w2"
    using lt v w1(1) by (subst setup_loop.simps) (simp add: serial_print_def)
  from Suc.hyps(1) [OF d le w1(2), of "success \<and> s1" ?w2]
  obtain b S F where r:
    "setup_loop hw a (i + 1) (success \<and> s1) s1 t1 ?w2 =
       Some ((success \<and> s1) \<and> b, ?w2\<lparr>calls := calls ?w2 @ S, serial := serial ?w2 @ F\<rparr>)"
    "\<forall>e \<in> set S. \<exists>k < ?n. fst e = SensorSetup (parentSensor (m_variableList a ! k))"
    "\<forall>m \<in> set F. \<exists>k < ?n. m = SetupFailed (getDreamHost (m_variableList a ! k))"
    "b = (F = [])"
    "b = (map fst (filter snd S) =
           map (\<lambda>k. SensorSetup (parentSensor (m_variableList a ! k))) [i + 1..<?n])"
    "length (filter snd S) \<le> ?n - (i + 1)"
    by blast
  have run: "setup_loop hw a i success sensorSuccess setupTries w =
      Some (success \<and> (s1 \<and> b), w\<lparr>calls := calls w @ (S1 @ S), serial := serial w @ (?F1 @ F)\<rparr>)"
    using step r(1) by simp
  have c1: "\<forall>e \<in> set (S1 @ S). \<exists>k < ?n. fst e = SensorSetup (parentSensor (m_variableList a ! k))"
    using w1(3) r(2) lt by auto
  have c2: "\<forall>m \<in> set (?F1 @ F). \<exists>k < ?n. m = SetupFailed (getDreamHost (m_variableList a ! k))"
    using r(3) lt by auto
  have c3: "(s1 \<and> b) = (?F1 @ F = [])"
    using r(4) by simp
  have c5: "length (filter snd (S1 @ S)) \<le> ?n - i"
    using w1(4) r(6) lt by (cases s1) auto
  have c4: "(s1 \<and> b) = (map fst (filter snd (S1 @ S)) =
           map (\<lambda>k. SensorSetup (parentSensor (m_variableList a ! k))) [i..<?n])"
  proof (cases s1)
    case True
    then show ?thesis using w1(4) r(5) by (simp add: upt)
  next
    case False
    then have "length (map fst (filter snd (S1 @ S))) < length [i..<?n]"
      using w1(4) r(6) lt by auto
    then have "map fst (filter snd (S1 @ S)) \<noteq>
           map (\<lambda>k. SensorSetup (parentSensor (m_variableList a ! k))) [i..<?n]"
      by (metis length_map nat_neq_iff)
    with False show ?thesis by simp
  qed
  show ?case
    using run c1 c2 c3 c4 c5
    by (intro exI [of _ "s1 \<and> b"] exI [of _ "S1 @ S"] exI [of _ "?F1 @ F"]) blast
qed

lemma canonicalIndices_explicit:
  assumes wf: "unat (m_variableCount a) \<le> length (m_variableList a)"
  shows "canonicalIndices a =
     filter (\<lambda>i. \<forall>j. i < j \<and> j < unat (m_variableCount a) \<longrightarrow>
                  sensorKey (m_variableList a ! j) \<noteq> sensorKey (m_variableList a ! i))
       [0..<unat (m_variableCount a)]"
  unfolding canonicalIndices_def
  by (rule filter_cong) (simp_all add: isLastVarFromSensor_spec [OF wf])

lemma setup_loop_outcomes:
  assumes wf: "unat (m_variableCount a) \<le> length (m_variableList a)"
  shows "i \<le> unat (m_variableCount a) \<Longrightarrow> (5 \<le> setupTries \<longrightarrow> \<not> sensorSuccess) \<Longrightarrow>
     \<exists>S F os.
       setup_loop hw a i success sensorSuccess setupTries w =
         Some (success \<and> F = [], w\<lparr>calls := calls w @ S, serial := serial w @ F\<rparr>) \<and>
       length os = unat (m_variableCount a) - i \<and>
       map fst (filter snd S) =
         map (\<lambda>p. SensorSetup (parentSensor (fst p)))
           (filter snd (zip (map (\<lambda>k. m_variableList a ! k) [i..<unat (m_variableCount a)]) os)) \<and>
       F = map (\<lambda>p. SetupFailed (getDreamHost (fst p)))
           (filter (\<lambda>p. \<not> snd p)
              (zip (map (\<lambda>k. m_variableList a ! k) [i..<unat (m_variableCount a)]) os)) \<and>
       (\<forall>e \<in> set S. \<exists>k. i \<le> k \<and> k < unat (m_variableCount a) \<and>
            fst e = SensorSetup (parentSensor (m_variableList a ! k)))"
proof (induction "unat (m_variableCount a) - i" arbitrary: i success sensorSuccess setupTries w)
  case 0
  then have e: "i = unat (m_variableCount a)" by simp
  then have "setup_loop hw a i success sensorSuccess setupTries w =
      Some (success \<and> ([]::serial_msg list) = [], w\<lparr>calls := calls w @ [], serial := serial w @ []\<rparr>)"
    by (subst setup_loop.simps) simp
  then show ?case
    using e by (intro exI [of _ "[]"]) simp
next
  case (Suc d)
  let ?n = "unat (m_variableCount a)"
  from Suc.hyps(2) have lt: "i < ?n" by simp
  then have upt: "[i..<?n] = i # [i + 1..<?n]" by (simp add: upt_conv_Cons)
  have d: "d = ?n - (i + 1)" using Suc.hyps(2) by simp
  have le: "i + 1 \<le> ?n" using lt by simp
  have v: "var_at a i = Some (m_variableList a ! i)"
    using lt wf by (simp add: var_at_def)
  let ?c = "SensorSetup (parentSensor (m_variableList a ! i))"
  from setup_while_spec [OF wf lt Suc.prems(2), where hw = hw and w = w]
  obtain t1 s1 S1 where w1:
    "setup_while hw a i setupTries sensorSuccess w = Some (t1, s1, w\<lparr>calls := calls w @ S1\<rparr>)"
    "5 \<le> t1 \<longrightarrow> \<not> s1"
    "\<forall>e \<in> set S1. fst e = ?c"
    "filter snd S1 = (if s1 then [(?c, True)] else [])"
    by blast
  let ?F1 = "if s1 then [] else [SetupFailed (getDreamHost (m_variableList a ! i))]"
  let ?w2 = "w\<lparr>calls := calls w @ S1, serial := serial w @ ?F1\<rparr>"
  have step: "setup_loop hw a i success sensorSuccess setupTries w =
      setup_loop hw a (i + 1) (success \<and> s1) s1 t1 ?w2"
    using lt v w1(1) by (subst setup_loop.simps) (simp add: serial_print_def)
  let ?hs = "map (\<lambda>k. m_variableList a ! k) [i + 1..<?n]"
  from Suc.hyps(1) [OF d le w1(2), of "success \<and> s1" ?w2]
  obtain S F os where r:
    "setup_loop hw a (i + 1) (success \<and> s1) s1 t1 ?w2 =
       Some ((success \<and> s1) \<and> F = [], ?w2\<lparr>calls := calls ?w2 @ S, serial := serial ?w2 @ F\<rparr>)"
    "length os = ?n - (i + 1)"
    "map fst (filter snd S) = map (\<lambda>p. SensorSetup (parentSensor (fst p))) (filter snd (zip ?hs os))"
    "F = map (\<lambda>p. SetupFailed (getDreamHost (fst p))) (filter (\<lambda>p. \<not> snd p) (zip ?hs os))"
    "\<forall>e \<in> set S. \<exists>k. i + 1 \<le> k \<and> k < ?n \<and>
            fst e = SensorSetup (parentSensor (m_variableList a ! k))"
    by blast
  have run: "setup_loop hw a i success sensorSuccess setupTries w =
      Some (success \<and> (?F1 @ F = []),
            w\<lparr>calls := calls w @ (S1 @ S), serial := serial w @ (?F1 @ F)\<rparr>)"
    using step r(1) by auto
  have c1: "length (s1 # os) = ?n - i" using r(2) lt by simp
  have c2: "map fst (filter snd (S1 @ S)) =
         map (\<lambda>p. SensorSetup (parentSensor (fst p)))
           (filter snd (zip (map (\<lambda>k. m_variableList a ! k) [i..<?n]) (s1 # os)))"
    using w1(4) r(3) by (simp add: upt)
  have c3: "?F1 @ F = map (\<lambda>p. SetupFailed (getDreamHost (fst p)))
           (filter (\<lambda>p. \<not> snd p) (zip (map (\<lambda>k. m_variableList a ! k) [i..<?n]) (s1 # os)))"
    using r(4) by (simp add: upt)
  have c4: "\<forall>e \<in> set (S1 @ S). \<exists>k. i \<le> k \<and> k < ?n \<and>
            fst e = SensorSetup (parentSensor (m_variableList a ! k))"
  proof
    fix e assume "e \<in> set (S1 @ S)"
    then consider "e \<in> set S1" | "e \<in> set S" by auto
    then show "\<exists>k. i \<le> k \<and> k < ?n \<and> fst e = SensorSetup (parentSensor (m_variableList a ! k))"
    proof cases
      case 1
      with w1(3) lt show ?thesis by (intro exI [of _ i]) simp
    next
      case 2
      with r(5) obtain k where "i + 1 \<le> k" "k < ?n"
        "fst e = SensorSetup (parentSensor (m_variableList a ! k))" by blast
      then show ?thesis by (intro exI [of _ k]) simp
    qed
  qed
  show ?case
    using run c1 c2 c3 c4
    by (intro exI [of _ "S1 @ S"] exI [of _ "?F1 @ F"] exI [of _ "s1 # os"]) blast
qed

lemma setupSensors_outcomes:
  assumes wf: "unat (m_variableCount a) \<le> length (m_variableList a)"
  shows "\<exists>S F A os.
     setupSensors hw a w =
       Some (F = [] \<and> (\<forall>e \<in> set A. snd e),
             w\<lparr>calls := calls w @ S @ A,
               serial := serial w @ [BeginningSetup] @ F @
                         (if F = [] \<and> (\<forall>e \<in> set A. snd e) then [SetupSuccess] else [])\<rparr>) \<and>
     length os = unat (m_variableCount a) \<and>
     map fst (filter snd S) =
       map (\<lambda>p. SensorSetup (parentSensor (fst p)))
         (filter snd (zip (take (unat (m_variableCount a)) (m_variableList a)) os)) \<and>
     F = map (\<lambda>p. SetupFailed (getDreamHost (fst p)))
           (filter (\<lambda>p. \<not> snd p) (zip (take (unat (m_variableCount a)) (m_variableList a)) os)) \<and>
     (\<forall>e \<in> set S. \<exists>k < unat (m_variableCount a).
          fst e = SensorSetup (parentSensor (m_variableList a ! k))) \<and>
     A = answers hw (calls w @ S)
           (map VariableSetup (take (unat (m_variableCount a)) (m_variableList a)))"
proof -
  let ?n = "unat (m_variableCount a)"
  let ?hs = "take ?n (m_variableList a)"
  let ?w0 = "serial_print BeginningSetup w"
  have hs0: "map (\<lambda>k. m_variableList a ! k) [0..<?n] = ?hs"
    using map_nth_take [OF wf, of "\<lambda>v. v"] by simp
  have "0 \<le> ?n" "(5::int) \<le> 0 \<longrightarrow> \<not> False" by simp_all
  from setup_loop_outcomes [OF wf this, of hw True ?w0]
  obtain S F os where one:
    "setup_loop hw a 0 True False 0 ?w0 =
       Some (True \<and> F = [], ?w0\<lparr>calls := calls ?w0 @ S, serial := serial ?w0 @ F\<rparr>)"
    "length os = ?n"
    "map fst (filter snd S) =
       map (\<lambda>p. SensorSetup (parentSensor (fst p))) (filter snd (zip ?hs os))"
    "F = map (\<lambda>p. SetupFailed (getDreamHost (fst p))) (filter (\<lambda>p. \<not> snd p) (zip ?hs os))"
    "\<forall>e \<in> set S. \<exists>k. 0 \<le> k \<and> k < ?n \<and>
            fst e = SensorSetup (parentSensor (m_variableList a ! k))"
    unfolding hs0 by auto
  let ?w1 = "w\<lparr>calls := calls w @ S, serial := serial w @ [BeginningSetup] @ F\<rparr>"
  have w1: "?w0\<lparr>calls := calls ?w0 @ S, serial := serial ?w0 @ F\<rparr> = ?w1"
    by (simp add: serial_print_def)
  let ?A = "answers hw (calls w @ S) (map VariableSetup ?hs)"
  have hs: "map (\<lambda>k. VariableSetup (m_variableList a ! k)) [0..<?n] = map VariableSetup ?hs"
    by (rule map_nth_take [OF wf])
  have two: "attach_loop hw a 0 (F = []) ?w1 =
       Some (F = [] \<and> (\<forall>e \<in> set ?A. snd e), ?w1\<lparr>calls := calls ?w1 @ ?A\<rparr>)"
    using attach_loop_spec [OF wf, of 0 hw "F = []" ?w1] by (simp add: hs)
  let ?b = "F = [] \<and> (\<forall>e \<in> set ?A. snd e)"
  have run: "setupSensors hw a w =
       Some (?b, w\<lparr>calls := calls w @ S @ ?A,
                  serial := serial w @ [BeginningSetup] @ F @
                            (if ?b then [SetupSuccess] else [])\<rparr>)"
    using one(1) two by (simp add: setupSensors_def w1 serial_print_def)
  have c: "\<forall>e \<in> set S. \<exists>k < ?n. fst e = SensorSetup (parentSensor (m_variableList a ! k))"
    using one(5) by blast
  show ?thesis
    using run one(2,3,4) c
    by (intro exI [of _ S] exI [of _ F] exI [of _ ?A] exI [of _ os]) blast
qed

subsection \<open>Arrays that agree below the count\<close>

text \<open>
  The loops read the count and the handles below it, and nothing else of the array.
\<close>

lemma isLast_loop_agree:
  assumes c: "m_variableCount a = m_variableCount a'"
    and v: "\<And>i. i < unat (m_variableCount a) \<Longrightarrow> var_at a i = var_at a' i"
  shows "isLast_loop a sensName sensLoc j = isLast_loop a' sensName sensLoc j"
proof (induction "unat (m_variableCount a) - j" arbitrary: j)
  case 0
  then show ?case
    using c by (simp add: isLast_loop.simps [of a _ _ j] isLast_loop.simps [of a' _ _ j])
next
  case (Suc d)
  then have lt: "j < unat (m_variableCount a)" and d: "d = unat (m_variableCount a) - (j + 1)"
    by simp_all
  show ?case
    using c v [OF lt] Suc.hyps(1) [OF d] lt
    by (simp add: isLast_loop.simps [of a _ _ j] isLast_loop.simps [of a' _ _ j]
        split: option.splits)
qed

lemma isLastVarFromSensor_agree:
  assumes c: "m_variableCount a = m_variableCount a'"
    and v: "\<And>i. i < unat (m_variableCount a) \<Longrightarrow> var_at a i = var_at a' i"
    and i: "i < unat (m_variableCount a)"
  shows "isLastVarFromSensor a i = isLastVarFromSensor a' i"
  using v [OF i] isLast_loop_agree [OF c v]
  by (simp add: isLastVarFromSensor_def split: option.splits)

lemma sensorCount_loop_agree:
  assumes c: "m_variableCount a = m_variableCount a'"
    and v: "\<And>i. i < unat (m_variableCount a) \<Longrightarrow> var_at a i = var_at a' i"
  shows "sensorCount_loop a i numSensors = sensorCount_loop a' i numSensors"
proof (induction "unat (m_variableCount a) - i" arbitrary: i numSensors)
  case 0
  then show ?case
    using c by (simp add: sensorCount_loop.simps [of a i] sensorCount_loop.simps [of a' i])
next
  case (Suc d)
  then have lt: "i < unat (m_variableCount a)" and d: "d = unat (m_variableCount a) - (i + 1)"
    by simp_all
  show ?case
    using c isLastVarFromSensor_agree [OF c v lt] Suc.hyps(1) [OF d] lt
    by (simp add: sensorCount_loop.simps [of a i] sensorCount_loop.simps [of a' i]
        split: option.splits)
qed

lemma setup_while_agree:
  assumes v: "var_at a i = var_at a' i"
  shows "setup_while hw a i setupTries sensorSuccess w =
         setup_while hw a' i setupTries sensorSuccess w"
proof (induction "nat (5 - setupTries)" arbitrary: setupTries sensorSuccess w)
  case 0
  then show ?case
    by (simp add: setup_while.simps [of hw a i setupTries] setup_while.simps [of hw a' i setupTries])
next
  case (Suc d)
  then have d: "d = nat (5 - (setupTries + 1))" by simp
  show ?case
    using v Suc.hyps(1) [OF d]
    by (simp add: setup_while.simps [of hw a i setupTries] setup_while.simps [of hw a' i setupTries]
        split: option.splits prod.splits)
qed

lemma setup_loop_agree:
  assumes c: "m_variableCount a = m_variableCount a'"
    and v: "\<And>i. i < unat (m_variableCount a) \<Longrightarrow> var_at a i = var_at a' i"
  shows "setup_loop hw a i success sensorSuccess setupTries w =
         setup_loop hw a' i success sensorSuccess setupTries w"
proof (induction "unat (m_variableCount a) - i" arbitrary: i success sensorSuccess setupTries w)
  case 0
  then show ?case
    using c by (simp add: setup_loop.simps [of hw a i] setup_loop.simps [of hw a' i])
next
  case (Suc d)
  then have lt: "i < unat (m_variableCount a)" and d: "d = unat (m_variableCount a) - (i + 1)"
    by simp_all
  show ?case
    using c v [OF lt] setup_while_agree [OF v [OF lt], of hw] Suc.hyps(1) [OF d] lt
    by (simp add: setup_loop.simps [of hw a i] setup_loop.simps [of hw a' i]
        split: option.splits prod.splits)
qed

lemma attach_loop_agree:
  assumes c: "m_variableCount a = m_variableCount a'"
    and v: "\<And>i. i < unat (m_variableCount a) \<Longrightarrow> var_at a i = var_at a' i"
  shows "attach_loop hw a i success w = attach_loop hw a' i success w"
proof (induction "unat (m_variableCount a) - i" arbitrary: i success w)
  case 0
  then show ?case
    using c by (simp add: attach_loop.simps [of hw a i] attach_loop.simps [of hw a' i])
next
  case (Suc d)
  then have lt: "i < unat (m_variableCount a)" and d: "d = unat (m_variableCount a) - (i + 1)"
    by simp_all
  show ?case
    using c v [OF lt] Suc.hyps(1) [OF d] lt
    by (simp add: attach_loop.simps [of hw a i] attach_loop.simps [of hw a' i]
        split: option.splits prod.splits)
qed

lemma sleep_loop_agree:
  assumes c: "m_variableCount a = m_variableCount a'"
    and v: "\<And>i. i < unat (m_variableCount a) \<Longrightarrow> var_at a i = var_at a' i"
  shows "sleep_loop hw a i success w = sleep_loop hw a' i success w"
proof (induction "unat (m_variableCount a) - i" arbitrary: i success w)
  case 0
  then show ?case
    using c by (simp add: sleep_loop.simps [of hw a i] sleep_loop.simps [of hw a' i])
next
  case (Suc d)
  then have lt: "i < unat (m_variableCount a)" and d: "d = unat (m_variableCount a) - (i + 1)"
    by simp_all
  show ?case
    using c v [OF lt] isLastVarFromSensor_agree [OF c v lt] Suc.hyps(1) [OF d] lt
    by (simp add: sleep_loop.simps [of hw a i] sleep_loop.simps [of hw a' i]
        split: option.splits prod.splits bool.splits)
qed

lemma wake_loop_agree:
  assumes c: "m_variableCount a = m_variableCount a'"
    and v: "\<And>i. i < unat (m_variableCount a) \<Longrightarrow> var_at a i = var_at a' i"
  shows "wake_loop hw a i success w = wake_loop hw a' i success w"
proof (induction "unat (m_variableCount a) - i" arbitrary: i success w)
  case 0
  then show ?case
    using c by (simp add: wake_loop.simps [of hw a i] wake_loop.simps [of hw a' i])
next
  case (Suc d)
  then have lt: "i < unat (m_variableCount a)" and d: "d = unat (m_variableCount a) - (i + 1)"
    by simp_all
  show ?case
    using c v [OF lt] isLastVarFromSensor_agree [OF c v lt] Suc.hyps(1) [OF d] lt
    by (simp add: wake_loop.simps [of hw a i] wake_loop.simps [of hw a' i]
        split: option.splits prod.splits bool.splits)
qed

lemma update_loop_agree:
  assumes c: "m_variableCount a = m_variableCount a'"
    and v: "\<And>i. i < unat (m_variableCount a) \<Longrightarrow> var_at a i = var_at a' i"
  shows "update_loop hw a i update_success w = update_loop hw a' i update_success w"
proof (induction "unat (m_variableCount a) - unat i" arbitrary: i update_success w)
  case 0
  then have "\<not> i < m_variableCount a" by (simp add: word_less_nat_alt)
  then show ?case
    using c by (simp add: update_loop.simps [of hw a i] update_loop.simps [of hw a' i])
next
  case (Suc d)
  then have lt: "unat i < unat (m_variableCount a)" by simp
  then have wlt: "i < m_variableCount a" by (simp add: word_less_nat_alt)
  have d: "d = unat (m_variableCount a) - unat (i + 1)"
    using Suc.hyps(2) word8_succ [OF wlt] by simp
  show ?case
    using c v [OF lt] isLastVarFromSensor_agree [OF c v lt] Suc.hyps(1) [OF d] wlt
    by (simp add: update_loop.simps [of hw a i] update_loop.simps [of hw a' i]
        split: option.splits prod.splits bool.splits)
qed

lemma csv_loop_agree:
  assumes c: "m_variableCount a = m_variableCount a'"
    and v: "\<And>i. i < unat (m_variableCount a) \<Longrightarrow> var_at a i = var_at a' i"
  shows "csv_loop a i csvString = csv_loop a' i csvString"
proof (induction "unat (m_variableCount a) - unat i" arbitrary: i csvString)
  case 0
  then have "\<not> i < m_variableCount a" by (simp add: word_less_nat_alt)
  then show ?case
    using c by (simp add: csv_loop.simps [of a i] csv_loop.simps [of a' i])
next
  case (Suc d)
  then have lt: "unat i < unat (m_variableCount a)" by simp
  then have wlt: "i < m_variableCount a" by (simp add: word_less_nat_alt)
  have d: "d = unat (m_variableCount a) - unat (i + 1)"
    using Suc.hyps(2) word8_succ [OF wlt] by simp
  show ?case
    using c v [OF lt] Suc.hyps(1) [OF d] wlt
    by (simp add: csv_loop.simps [of a i] csv_loop.simps [of a' i]
        split: option.splits)
qed

lemma init_truncated_agree:
  "m_variableCount (init c l) = m_variableCount (init (c mod 256) (take (nat (c mod 256)) l))"
  "i < unat (m_variableCount (init c l)) \<Longrightarrow>
     var_at (init c l) i = var_at (init (c mod 256) (take (nat (c mod 256)) l)) i"
proof -
  show "m_variableCount (init c l) = m_variableCount (init (c mod 256) (take (nat (c mod 256)) l))"
    by (simp add: init_def word_eq_iff_unsigned [where ?'a = int] uint_word_of_int)
  assume "i < unat (m_variableCount (init c l))"
  then have "i < nat (c mod 256)"
    by (simp add: init_def unat_eq_nat_uint uint_word_of_int)
  then show "var_at (init c l) i = var_at (init (c mod 256) (take (nat (c mod 256)) l)) i"
    by (simp add: var_at_def init_def)
qed

lemma init_fields:
  "unat (m_variableCount (init c l)) = nat (c mod 256)"
  "m_variableList (init c l) = l"
  by (simp_all add: init_def unat_eq_nat_uint uint_word_of_int)

subsection \<open>The epoch offset\<close>

lemma seconds_1970_2000: "secondsBetweenYears 1970 2000 = 946684800"
  by (simp add: secondsBetweenYears_def daysInYear_def isLeapYear_def upt_rec)

section \<open>Facts about the example data\<close>

lemma example_isLast:
  "isLastVarFromSensor exampleArray 0 = Some False"
  "isLastVarFromSensor exampleArray 1 = Some True"
  "isLastVarFromSensor exampleArray (Suc 0) = Some True"
  "isLastVarFromSensor exampleArray 2 = Some True"
  by (simp_all add: isLastVarFromSensor_def var_at_def isLast_loop.simps exampleArray_simps
      var1_def var2_def var3_def sensorA_def sensorB_def)

lemma example_canonical: "canonicalIndices exampleArray = [1, 2]"
proof -
  have "[0..<3] = [0, 1, 2]" by (simp add: upt_rec)
  then show ?thesis
    by (simp add: canonicalIndices_def exampleArray_simps example_isLast)
qed

lemma sensorA_neq_B: "sensorA \<noteq> sensorB" "sensorB \<noteq> sensorA"
  by (simp_all add: sensorA_def sensorB_def)

lemma example_parents:
  "parentSensor var1 = sensorA" "parentSensor var2 = sensorA" "parentSensor var3 = sensorB"
  by (simp_all add: var1_def var2_def var3_def)

lemma example_hosts:
  "getDreamHost var1 = ''h1''" "getDreamHost var2 = ''h2''" "getDreamHost var3 = ''h3''"
  by (simp_all add: var1_def var2_def var3_def)

lemmas run_simps =
  setupSensors_def setup_loop.simps setup_while.simps attach_loop.simps
  var_at_def invoke_def serial_print_def world0_def

section \<open>The properties of the specification\<close>

text \<open>
  C1.  Whenever the caller's array holds at least \<open>_variableCount\<close> handles and \<open>i\<close> is
  an index below the count, \<open>isLastVarFromSensor(i)\<close> returns true if and only if no
  index \<open>j\<close> with \<open>i < j < _variableCount\<close> has a sensor with the same (name, location)
  pair.  In particular it returns true at the last index of a non-empty array, which for
  an array of one handle is its only index.
\<close>

theorem isLastVarFromSensor_contract:
  assumes "unat (m_variableCount a) \<le> length (m_variableList a)"
    and "i < unat (m_variableCount a)"
  shows "isLastVarFromSensor a i =
           Some (\<not> (\<exists>j. i < j \<and> j < unat (m_variableCount a) \<and>
                       sensorKey (m_variableList a ! j) = sensorKey (m_variableList a ! i)))
         \<and> (i + 1 = unat (m_variableCount a) \<longrightarrow> isLastVarFromSensor a i = Some True)"
proof -
  have "isLastVarFromSensor a i =
     Some (\<forall>j. i < j \<and> j < unat (m_variableCount a) \<longrightarrow>
             sensorKey (m_variableList a ! j) \<noteq> sensorKey (m_variableList a ! i))"
    by (rule isLastVarFromSensor_spec [OF assms])
  then show ?thesis by auto
qed

theorem isLastVarFromSensor_contract_witness:
  "isLastVarFromSensor exampleArray 0 = Some False \<and>
   isLastVarFromSensor exampleArray 1 = Some True \<and>
   isLastVarFromSensor exampleArray 2 = Some True \<and>
   isLastVarFromSensor (init 1 [var1]) 0 = Some True"
proof -
  have wf: "unat (m_variableCount exampleArray) \<le> length (m_variableList exampleArray)"
    by (simp add: exampleArray_simps)
  have later: "\<exists>j. 0 < j \<and> j < 3 \<and> [var1, var2, var3] ! j = var2"
    by (rule exI [of _ 1]) simp
  have "isLastVarFromSensor exampleArray 0 = Some False"
    using isLastVarFromSensor_contract [OF wf, of 0] later
    by (auto simp add: exampleArray_simps example_keys)
  moreover have "isLastVarFromSensor exampleArray 1 = Some True"
  proof -
    have "\<not> (\<exists>j. 1 < j \<and> j < 3 \<and> sensorKey ([var1, var2, var3] ! j) = sensorKey var2)"
    proof
      assume "\<exists>j. 1 < j \<and> j < 3 \<and> sensorKey ([var1, var2, var3] ! j) = sensorKey var2"
      then obtain j where j: "1 < j" "j < 3" "sensorKey ([var1, var2, var3] ! j) = sensorKey var2"
        by blast
      from j(1,2) have "j = 2" by simp
      with j(3) show False by (simp add: example_keys)
    qed
    then show ?thesis
      using isLastVarFromSensor_contract [OF wf, of 1]
      by (simp add: exampleArray_simps)
  qed
  moreover have "isLastVarFromSensor exampleArray 2 = Some True"
    using isLastVarFromSensor_contract [OF wf, of 2]
    by (simp add: exampleArray_simps)
  moreover have "isLastVarFromSensor (init 1 [var1]) 0 = Some True"
    using isLastVarFromSensor_contract [of "init 1 [var1]" 0]
    by (simp add: init_def)
  ultimately show ?thesis by simp
qed

text \<open>
  C5.  Whenever the caller's array holds at least \<open>_variableCount\<close> handles,
  \<open>getSensorCount()\<close> returns 1 plus the number of canonical indices; every
  (name, location) pair of the array has exactly one canonical index, so this is 1 plus
  the number of distinct (name, location) pairs among the handles; for an empty array
  it returns 1.
\<close>

theorem getSensorCount_bias:
  assumes "unat (m_variableCount a) \<le> length (m_variableList a)"
  shows "getSensorCount a = Some (1 + int (length (canonicalIndices a))) \<and>
         (\<forall>k < unat (m_variableCount a).
            length (filter (\<lambda>i. sensorKey (m_variableList a ! i) = sensorKey (m_variableList a ! k))
                      (canonicalIndices a)) = 1) \<and>
         getSensorCount a =
           Some (1 + int (card (sensorKey `
                   set (take (unat (m_variableCount a)) (m_variableList a))))) \<and>
         (m_variableCount a = 0 \<longrightarrow> getSensorCount a = Some 1)"
proof -
  have run: "getSensorCount a = Some (1 + int (length (canonicalIndices a)))"
    using sensorCount_loop_spec [OF assms, of 0 1]
    by (simp add: getSensorCount_def canonicalIndices_def)
  have once: "\<forall>k < unat (m_variableCount a).
            length (filter (\<lambda>i. sensorKey (m_variableList a ! i) = sensorKey (m_variableList a ! k))
                      (canonicalIndices a)) = 1"
    using canonical_once [OF assms] by blast
  have "m_variableCount a = 0 \<longrightarrow> canonicalIndices a = []"
    by (simp add: canonicalIndices_def)
  with run have empty: "m_variableCount a = 0 \<longrightarrow> getSensorCount a = Some 1"
    by simp
  from run have "getSensorCount a =
           Some (1 + int (card (sensorKey `
                   set (take (unat (m_variableCount a)) (m_variableList a)))))"
    using canonical_card [OF assms] by simp
  with run once empty show ?thesis by blast
qed

theorem getSensorCount_bias_witness:
  "getSensorCount exampleArray = Some 3 \<and> getSensorCount (init 0 []) = Some 1"
proof -
  have wf: "unat (m_variableCount exampleArray) \<le> length (m_variableList exampleArray)"
    by (simp add: exampleArray_simps)
  have "getSensorCount exampleArray = Some (1 + int (length (canonicalIndices exampleArray)))"
    using getSensorCount_bias [OF wf] by blast
  then have "getSensorCount exampleArray = Some 3"
    by (simp add: example_canonical)
  moreover have "getSensorCount (init 0 []) = Some 1"
  proof -
    have wf0: "unat (m_variableCount (init 0 [])) \<le> length (m_variableList (init 0 []))"
      by (simp add: init_def)
    have z: "m_variableCount (init 0 []) = 0" by (simp add: init_def)
    from getSensorCount_bias [OF wf0] z show ?thesis by blast
  qed
  ultimately show ?thesis by simp
qed

text \<open>
  C7.  Whenever the caller's array holds at least \<open>_variableCount\<close> handles,
  \<open>sensorsSleep()\<close> calls \<open>sleep()\<close>, and \<open>sensorsWake()\<close> calls \<open>wake()\<close>, on the parent
  sensor of each canonical index, in order of index, and on nothing else; every
  (name, location) pair of the array has exactly one canonical index; each function
  returns the conjunction of the results of its calls, hence true for an empty array.
\<close>

theorem sensorsSleep_sensorsWake_once_and_conjunction:
  fixes hw :: hardware and a :: VariableArray and w :: world
  defines "slept \<equiv> answers hw (calls w)
      (map (\<lambda>i. SensorSleep (parentSensor (m_variableList a ! i))) (canonicalIndices a))"
    and "woken \<equiv> answers hw (calls w)
      (map (\<lambda>i. SensorWake (parentSensor (m_variableList a ! i))) (canonicalIndices a))"
  assumes wf: "unat (m_variableCount a) \<le> length (m_variableList a)"
  shows "sensorsSleep hw a w = Some ((\<forall>e \<in> set slept. snd e), w\<lparr>calls := calls w @ slept\<rparr>) \<and>
         map fst slept =
           map (\<lambda>i. SensorSleep (parentSensor (m_variableList a ! i))) (canonicalIndices a) \<and>
         sensorsWake hw a w = Some ((\<forall>e \<in> set woken. snd e), w\<lparr>calls := calls w @ woken\<rparr>) \<and>
         map fst woken =
           map (\<lambda>i. SensorWake (parentSensor (m_variableList a ! i))) (canonicalIndices a) \<and>
         (\<forall>k < unat (m_variableCount a).
            length (filter (\<lambda>i. sensorKey (m_variableList a ! i) = sensorKey (m_variableList a ! k))
                      (canonicalIndices a)) = 1) \<and>
         (m_variableCount a = 0 \<longrightarrow>
            sensorsSleep hw a w = Some (True, w) \<and> sensorsWake hw a w = Some (True, w))"
proof -
  have s: "sensorsSleep hw a w = Some ((\<forall>e \<in> set slept. snd e), w\<lparr>calls := calls w @ slept\<rparr>)"
    using sleep_loop_spec [OF wf, of 0 hw True w]
    by (simp add: sensorsSleep_def canonicalIndices_def slept_def)
  have k: "sensorsWake hw a w = Some ((\<forall>e \<in> set woken. snd e), w\<lparr>calls := calls w @ woken\<rparr>)"
    using wake_loop_spec [OF wf, of 0 hw True w]
    by (simp add: sensorsWake_def canonicalIndices_def woken_def)
  have e: "m_variableCount a = 0 \<longrightarrow> slept = [] \<and> woken = []"
    by (simp add: canonicalIndices_def slept_def woken_def)
  have once: "\<forall>k < unat (m_variableCount a).
            length (filter (\<lambda>i. sensorKey (m_variableList a ! i) = sensorKey (m_variableList a ! k))
                      (canonicalIndices a)) = 1"
    using canonical_once [OF wf] by blast
  have m: "map fst slept =
           map (\<lambda>i. SensorSleep (parentSensor (m_variableList a ! i))) (canonicalIndices a)"
     "map fst woken =
           map (\<lambda>i. SensorWake (parentSensor (m_variableList a ! i))) (canonicalIndices a)"
    by (simp_all add: slept_def woken_def map_fst_answers)
  from e s k have z: "m_variableCount a = 0 \<longrightarrow>
            sensorsSleep hw a w = Some (True, w) \<and> sensorsWake hw a w = Some (True, w)"
    by simp
  from s k once m z show ?thesis by blast
qed

theorem sensorsSleep_sensorsWake_once_and_conjunction_witness:
  "sensorsSleep sensorAFails exampleArray world0 =
     Some (False, \<lparr> calls = [(SensorSleep sensorA, False), (SensorSleep sensorB, True)],
                    serial = [] \<rparr>) \<and>
   sensorsWake allSucceed exampleArray world0 =
     Some (True, \<lparr> calls = [(SensorWake sensorA, True), (SensorWake sensorB, True)],
                   serial = [] \<rparr>)"
proof -
  have wf: "unat (m_variableCount exampleArray) \<le> length (m_variableList exampleArray)"
    by (simp add: exampleArray_simps)
  have "sensorsSleep sensorAFails exampleArray world0 =
     Some (False, \<lparr> calls = [(SensorSleep sensorA, False), (SensorSleep sensorB, True)],
                    serial = [] \<rparr>)"
    using sensorsSleep_sensorsWake_once_and_conjunction [OF wf, of sensorAFails world0]
    by (simp add: example_canonical exampleArray_simps example_parents sensorAFails_def
        world0_def sensorA_neq_B)
  moreover have "sensorsWake allSucceed exampleArray world0 =
     Some (True, \<lparr> calls = [(SensorWake sensorA, True), (SensorWake sensorB, True)],
                   serial = [] \<rparr>)"
    using sensorsSleep_sensorsWake_once_and_conjunction [OF wf, of allSucceed world0]
    by (simp add: example_canonical exampleArray_simps example_parents allSucceed_def
        world0_def)
  ultimately show ?thesis by simp
qed

text \<open>
  C4.  Whenever the caller's array holds at least \<open>_variableCount\<close> handles,
  \<open>updateAllSensors()\<close> calls \<open>update()\<close> on the parent sensor of each canonical index,
  in order of index, and on nothing else; every (name, location) pair has exactly one
  canonical index; the returned status is the result of the last of these calls alone,
  which for a non-empty array is the update of the last handle's sensor, whatever the
  earlier calls returned; for an empty array it is true.
\<close>

theorem updateAllSensors_last_only:
  fixes hw :: hardware and a :: VariableArray and w :: world
  defines "updated \<equiv> answers hw (calls w)
      (map (\<lambda>i. SensorUpdate (parentSensor (m_variableList a ! i))) (canonicalIndices a))"
  assumes wf: "unat (m_variableCount a) \<le> length (m_variableList a)"
  shows "updateAllSensors hw a w =
           Some (if updated = [] then True else snd (last updated),
                 w\<lparr>calls := calls w @ updated\<rparr>) \<and>
         map fst updated =
           map (\<lambda>i. SensorUpdate (parentSensor (m_variableList a ! i))) (canonicalIndices a) \<and>
         (\<forall>k < unat (m_variableCount a).
            length (filter (\<lambda>i. sensorKey (m_variableList a ! i) = sensorKey (m_variableList a ! k))
                      (canonicalIndices a)) = 1) \<and>
         (m_variableCount a \<noteq> 0 \<longrightarrow>
            updated \<noteq> [] \<and>
            fst (last updated) =
              SensorUpdate (parentSensor (m_variableList a ! (unat (m_variableCount a) - 1)))) \<and>
         (m_variableCount a = 0 \<longrightarrow> updateAllSensors hw a w = Some (True, w))"
proof -
  let ?cs = "map (\<lambda>i. SensorUpdate (parentSensor (m_variableList a ! i))) (canonicalIndices a)"
  have run: "updateAllSensors hw a w =
           Some (if updated = [] then True else snd (last updated),
                 w\<lparr>calls := calls w @ updated\<rparr>)"
    using update_loop_spec [OF wf, of hw 0 True w]
    by (simp add: updateAllSensors_def canonicalIndices_def updated_def)
  have m: "map fst updated = ?cs"
    by (simp add: updated_def map_fst_answers)
  have once: "\<forall>k < unat (m_variableCount a).
            length (filter (\<lambda>i. sensorKey (m_variableList a ! i) = sensorKey (m_variableList a ! k))
                      (canonicalIndices a)) = 1"
    using canonical_once [OF wf] by blast
  have lastc: "m_variableCount a \<noteq> 0 \<longrightarrow>
            updated \<noteq> [] \<and>
            fst (last updated) =
              SensorUpdate (parentSensor (m_variableList a ! (unat (m_variableCount a) - 1)))"
  proof
    assume "m_variableCount a \<noteq> 0"
    then have pos: "0 < unat (m_variableCount a)" by (simp add: unat_gt_0)
    note cl = canonical_last [OF wf pos]
    then have ne: "updated \<noteq> []" by (simp add: updated_def)
    have "fst (last updated) = last (map fst updated)"
      using ne by (simp add: last_map)
    also have "\<dots> = last ?cs" by (simp add: m)
    also have "\<dots> = SensorUpdate (parentSensor (m_variableList a ! (unat (m_variableCount a) - 1)))"
      using cl by (simp add: last_map)
    finally show "updated \<noteq> [] \<and>
            fst (last updated) =
              SensorUpdate (parentSensor (m_variableList a ! (unat (m_variableCount a) - 1)))"
      using ne by simp
  qed
  have "m_variableCount a = 0 \<longrightarrow> updated = []"
    by (simp add: canonicalIndices_def updated_def)
  with run have z: "m_variableCount a = 0 \<longrightarrow> updateAllSensors hw a w = Some (True, w)"
    by simp
  from run m once lastc z show ?thesis by blast
qed

theorem updateAllSensors_last_only_witness:
  "updateAllSensors sensorAFails exampleArray world0 =
     Some (True, \<lparr> calls = [(SensorUpdate sensorA, False), (SensorUpdate sensorB, True)],
                   serial = [] \<rparr>) \<and>
   updateAllSensors sensorAFails (init 0 []) world0 = Some (True, world0)"
proof -
  have wf: "unat (m_variableCount exampleArray) \<le> length (m_variableList exampleArray)"
    by (simp add: exampleArray_simps)
  have "updateAllSensors sensorAFails exampleArray world0 =
     Some (True, \<lparr> calls = [(SensorUpdate sensorA, False), (SensorUpdate sensorB, True)],
                   serial = [] \<rparr>)"
    using updateAllSensors_last_only [OF wf, of sensorAFails world0]
    by (simp add: example_canonical exampleArray_simps example_parents sensorAFails_def
        world0_def sensorA_neq_B)
  moreover have "updateAllSensors sensorAFails (init 0 []) world0 = Some (True, world0)"
  proof -
    have wf0: "unat (m_variableCount (init 0 [])) \<le> length (m_variableList (init 0 []))"
      by (simp add: init_def)
    have z: "m_variableCount (init 0 []) = 0" by (simp add: init_def)
    from updateAllSensors_last_only [OF wf0] z show ?thesis by blast
  qed
  ultimately show ?thesis by simp
qed

text \<open>
  C8.  Whenever the caller's array holds at least \<open>_variableCount\<close> handles,
  \<open>generateSensorDataCSV()\<close> returns the current text of every handle below the count,
  in array order and with duplicates of a sensor included, joined by ", " with nothing
  after the last field; for an empty array it returns the empty string.
\<close>

theorem generateSensorDataCSV_shape:
  assumes "unat (m_variableCount a) \<le> length (m_variableList a)"
  shows "generateSensorDataCSV a =
           Some (csv_join (map getValueString
                   (take (unat (m_variableCount a)) (m_variableList a)))) \<and>
         (m_variableCount a = 0 \<longrightarrow> generateSensorDataCSV a = Some [])"
  using generateSensorDataCSV_spec [OF assms] by simp

theorem generateSensorDataCSV_shape_witness:
  "generateSensorDataCSV exampleArray = Some ''v1, v2, v3'' \<and>
   generateSensorDataCSV (init 0 []) = Some []"
proof -
  have wf: "unat (m_variableCount exampleArray) \<le> length (m_variableList exampleArray)"
    by (simp add: exampleArray_simps)
  have "generateSensorDataCSV exampleArray = Some ''v1, v2, v3''"
    using generateSensorDataCSV_shape [OF wf]
    by (simp add: exampleArray_simps var1_def var2_def var3_def)
  moreover have "generateSensorDataCSV (init 0 []) = Some []"
    using generateSensorDataCSV_shape [of "init 0 []"] by (simp add: init_def)
  ultimately show ?thesis by simp
qed

text \<open>
  On the first handle the budget is fresh.  A sensor whose setup fails four times and
  succeeds at the fifth attempt is set up, and \<open>setupSensors()\<close> returns true; a sensor
  whose setup fails five times gets no sixth attempt and is reported failed, its variable
  is attached all the same, and \<open>setupSensors()\<close> returns false.
\<close>

lemma setupSensors_first_handle_budget:
  "setupSensors (failsFirst 4) (init 1 [var1]) world0 =
     Some (True,
       \<lparr> calls = [(SensorSetup sensorA, False), (SensorSetup sensorA, False),
                  (SensorSetup sensorA, False), (SensorSetup sensorA, False),
                  (SensorSetup sensorA, True), (VariableSetup var1, True)],
         serial = [BeginningSetup, SetupSuccess] \<rparr>) \<and>
   setupSensors (failsFirst 5) (init 1 [var1]) world0 =
     Some (False,
       \<lparr> calls = [(SensorSetup sensorA, False), (SensorSetup sensorA, False),
                  (SensorSetup sensorA, False), (SensorSetup sensorA, False),
                  (SensorSetup sensorA, False), (VariableSetup var1, True)],
         serial = [BeginningSetup, SetupFailed ''h1''] \<rparr>)"
  by (simp add: run_simps init_def failsFirst_def example_parents example_hosts)

text \<open>
  C2.  The retry budget is shared by the whole array, not fresh for each handle:
  \<open>setupTries\<close> is declared before the \<open>for\<close> loop and never reset.  For two handles,
  the first on a sensor whose setup always fails and the second on a sensor whose setup
  would succeed, the five attempts are spent on the first sensor, the second sensor is
  never attempted, and both handles are reported failed.
\<close>

theorem setupSensors_shared_retry_budget:
  "setupSensors sensorAFails (init 2 [var1, var3]) world0 =
     Some (False,
       \<lparr> calls = [(SensorSetup sensorA, False), (SensorSetup sensorA, False),
                  (SensorSetup sensorA, False), (SensorSetup sensorA, False),
                  (SensorSetup sensorA, False),
                  (VariableSetup var1, True), (VariableSetup var3, True)],
         serial = [BeginningSetup, SetupFailed ''h1'', SetupFailed ''h3''] \<rparr>)"
  by (simp add: run_simps init_def sensorAFails_def example_parents example_hosts)

text \<open>
  For the array of three variables whose first two share a sensor, on a hardware where
  every call succeeds, \<open>setupSensors()\<close> makes three sensor setup calls, two of them
  on the shared sensor: the setup pass is not deduplicated (the comment in the loop says
  so).
\<close>

theorem setupSensors_dedup_counterexample:
  "setupSensors allSucceed exampleArray world0 =
     Some (True,
       \<lparr> calls = [(SensorSetup sensorA, True), (SensorSetup sensorA, True),
                  (SensorSetup sensorB, True),
                  (VariableSetup var1, True), (VariableSetup var2, True),
                  (VariableSetup var3, True)],
         serial = [BeginningSetup, SetupSuccess] \<rparr>)"
  by (simp add: run_simps exampleArray_def init_def allSucceed_def example_parents)

text \<open>
  C3 (amended).  Whenever the caller's array holds at least \<open>_variableCount\<close> handles
  and no sensor setup call fails (so that nothing is retried), \<open>setupSensors()\<close> makes
  one sensor setup call for every handle, in array order, a sensor shared by several
  handles being set up once for each of them, and then one attach call for every handle,
  in array order.
\<close>

theorem setupSensors_once_per_handle:
  assumes "unat (m_variableCount a) \<le> length (m_variableList a)"
    and "\<forall>h s. hw h (SensorSetup s)"
  shows "\<exists>b w'. setupSensors hw a w = Some (b, w') \<and>
     map fst (calls w') = map fst (calls w) @
        map (\<lambda>v. SensorSetup (parentSensor v))
          (take (unat (m_variableCount a)) (m_variableList a)) @
        map VariableSetup (take (unat (m_variableCount a)) (m_variableList a))"
  by (rule setupSensors_no_retry [OF assms])

theorem setupSensors_once_per_handle_witness:
  "\<exists>b w'. setupSensors allSucceed exampleArray world0 = Some (b, w') \<and>
     map fst (calls w') =
       [SensorSetup sensorA, SensorSetup sensorA, SensorSetup sensorB,
        VariableSetup var1, VariableSetup var2, VariableSetup var3]"
proof -
  have wf: "unat (m_variableCount exampleArray) \<le> length (m_variableList exampleArray)"
    by (simp add: exampleArray_simps)
  have ok: "\<forall>h s. allSucceed h (SensorSetup s)"
    by (simp add: allSucceed_def)
  show ?thesis
    using setupSensors_once_per_handle [OF wf ok, of world0]
    by (simp add: exampleArray_simps example_parents world0_def)
qed

text \<open>
  A sensor whose first setup attempt fails and whose second succeeds: \<open>setupSensors()\<close>
  returns true although one setup attempt failed.
\<close>

theorem setupSensors_any_failure_counterexample:
  "setupSensors firstCallFails (init 1 [var1]) world0 =
     Some (True,
       \<lparr> calls = [(SensorSetup sensorA, False), (SensorSetup sensorA, True),
                  (VariableSetup var1, True)],
         serial = [BeginningSetup, SetupSuccess] \<rparr>)"
  by (simp add: run_simps init_def firstCallFails_def example_parents)

text \<open>
  C6 (amended).  Whenever the caller's array holds at least \<open>_variableCount\<close> handles,
  \<open>setupSensors()\<close> first makes sensor setup calls only (\<open>S\<close>), all on sensors of
  handles of the array, and after them exactly one attach call for every handle, in
  array order (\<open>A\<close>), whatever failed before.  It returns true if and only if no handle
  was reported failed on Serial (\<open>F\<close> is empty) and every attach call succeeded; and no
  handle is reported failed exactly when the successful sensor setup calls are one for
  every handle, in array order.  A failed attempt that a retry made good does not count.
\<close>

theorem setupSensors_result:
  assumes wf: "unat (m_variableCount a) \<le> length (m_variableList a)"
  shows "\<exists>b S F A.
     setupSensors hw a w =
       Some (b, w\<lparr>calls := calls w @ S @ A,
                  serial := serial w @ [BeginningSetup] @ F @
                            (if b then [SetupSuccess] else [])\<rparr>) \<and>
     (\<forall>e \<in> set S. \<exists>k < unat (m_variableCount a).
          fst e = SensorSetup (parentSensor (m_variableList a ! k))) \<and>
     (\<forall>m \<in> set F. \<exists>k < unat (m_variableCount a).
          m = SetupFailed (getDreamHost (m_variableList a ! k))) \<and>
     A = answers hw (calls w @ S)
           (map VariableSetup (take (unat (m_variableCount a)) (m_variableList a))) \<and>
     map fst A = map VariableSetup (take (unat (m_variableCount a)) (m_variableList a)) \<and>
     b = (F = [] \<and> (\<forall>e \<in> set A. snd e)) \<and>
     (F = []) = (map fst (filter snd S) =
                   map (\<lambda>v. SensorSetup (parentSensor v))
                     (take (unat (m_variableCount a)) (m_variableList a)))"
proof -
  let ?n = "unat (m_variableCount a)"
  let ?hs = "take ?n (m_variableList a)"
  let ?w0 = "serial_print BeginningSetup w"
  have "0 \<le> ?n" "(5::int) \<le> 0 \<longrightarrow> \<not> False" by simp_all
  from setup_loop_spec [OF wf this, of hw True ?w0]
  obtain b1 S F where one:
    "setup_loop hw a 0 True False 0 ?w0 =
       Some (True \<and> b1, ?w0\<lparr>calls := calls ?w0 @ S, serial := serial ?w0 @ F\<rparr>)"
    "\<forall>e \<in> set S. \<exists>k < ?n. fst e = SensorSetup (parentSensor (m_variableList a ! k))"
    "\<forall>m \<in> set F. \<exists>k < ?n. m = SetupFailed (getDreamHost (m_variableList a ! k))"
    "b1 = (F = [])"
    "b1 = (map fst (filter snd S) =
            map (\<lambda>k. SensorSetup (parentSensor (m_variableList a ! k))) [0..<?n])"
    by blast
  let ?w1 = "w\<lparr>calls := calls w @ S, serial := serial w @ [BeginningSetup] @ F\<rparr>"
  have w1: "?w0\<lparr>calls := calls ?w0 @ S, serial := serial ?w0 @ F\<rparr> = ?w1"
    by (simp add: serial_print_def)
  let ?A = "answers hw (calls w @ S) (map VariableSetup ?hs)"
  have hs: "map (\<lambda>k. VariableSetup (m_variableList a ! k)) [0..<?n] = map VariableSetup ?hs"
    by (rule map_nth_take [OF wf])
  have two: "attach_loop hw a 0 b1 ?w1 =
       Some (b1 \<and> (\<forall>e \<in> set ?A. snd e), ?w1\<lparr>calls := calls ?w1 @ ?A\<rparr>)"
    using attach_loop_spec [OF wf, of 0 hw b1 ?w1] by (simp add: hs)
  let ?b = "b1 \<and> (\<forall>e \<in> set ?A. snd e)"
  have run: "setupSensors hw a w =
       Some (?b, w\<lparr>calls := calls w @ S @ ?A,
                  serial := serial w @ [BeginningSetup] @ F @
                            (if ?b then [SetupSuccess] else [])\<rparr>)"
    using one(1) two by (simp add: setupSensors_def w1 serial_print_def)
  have s: "map (\<lambda>k. SensorSetup (parentSensor (m_variableList a ! k))) [0..<?n] =
        map (\<lambda>v. SensorSetup (parentSensor v)) ?hs"
    by (rule map_nth_take [OF wf])
  have c5: "?b = (F = [] \<and> (\<forall>e \<in> set ?A. snd e))"
    using one(4) by simp
  have c6: "(F = []) = (map fst (filter snd S) = map (\<lambda>v. SensorSetup (parentSensor v)) ?hs)"
    using one(4,5) s by simp
  have c4: "map fst ?A = map VariableSetup ?hs"
    by (rule map_fst_answers)
  show ?thesis
    using run one(2,3) c4 c5 c6
    by (intro exI [of _ ?b] exI [of _ S] exI [of _ F] exI [of _ ?A]) blast
qed

theorem setupSensors_result_witness:
  "\<exists>b S F A.
     setupSensors sensorAFails exampleArray world0 =
       Some (b, \<lparr> calls = S @ A,
                  serial = [BeginningSetup] @ F @ (if b then [SetupSuccess] else []) \<rparr>) \<and>
     A = [(VariableSetup var1, True), (VariableSetup var2, True), (VariableSetup var3, True)] \<and>
     b = (F = []) \<and>
     (F = []) = (map fst (filter snd S) =
                   [SensorSetup sensorA, SensorSetup sensorA, SensorSetup sensorB])"
proof -
  have wf: "unat (m_variableCount exampleArray) \<le> length (m_variableList exampleArray)"
    by (simp add: exampleArray_simps)
  from setupSensors_result [OF wf, of sensorAFails world0]
  obtain b S F A where r:
    "setupSensors sensorAFails exampleArray world0 =
       Some (b, world0\<lparr>calls := calls world0 @ S @ A,
                  serial := serial world0 @ [BeginningSetup] @ F @
                            (if b then [SetupSuccess] else [])\<rparr>)"
    "A = answers sensorAFails (calls world0 @ S)
           (map VariableSetup (take (unat (m_variableCount exampleArray)) (m_variableList exampleArray)))"
    "b = (F = [] \<and> (\<forall>e \<in> set A. snd e))"
    "(F = []) = (map fst (filter snd S) =
                   map (\<lambda>v. SensorSetup (parentSensor v))
                     (take (unat (m_variableCount exampleArray)) (m_variableList exampleArray)))"
    by blast
  have A: "A = [(VariableSetup var1, True), (VariableSetup var2, True), (VariableSetup var3, True)]"
    using r(2) by (simp add: exampleArray_simps sensorAFails_def)
  have "setupSensors sensorAFails exampleArray world0 =
       Some (b, \<lparr> calls = S @ A,
                  serial = [BeginningSetup] @ F @ (if b then [SetupSuccess] else []) \<rparr>)"
    using r(1) by (simp add: world0_def)
  moreover have "b = (F = [])" using r(3) A by simp
  moreover have "(F = []) = (map fst (filter snd S) =
                   [SensorSetup sensorA, SensorSetup sensorA, SensorSetup sensorB])"
    using r(4) by (simp add: exampleArray_simps example_parents)
  ultimately show ?thesis
    using A by (intro exI [of _ b] exI [of _ S] exI [of _ F] exI [of _ A]) blast
qed

text \<open>
  C10.  \<open>init(variableCount, variableList)\<close> stores \<open>variableCount\<close> modulo 256: that is
  the stored count and what \<open>getVariableCount()\<close> returns, for every integer
  \<open>variableCount\<close>.  Every operation then behaves exactly as on an array initialised with
  that count and only the first \<open>k = variableCount mod 256\<close> handles of the list.  Where the
  list holds \<open>k\<close> handles, every loop visits exactly those \<open>k\<close> handles:
  the CSV text has one field for each of them; the canonical indices are the last
  occurrences of the sensors among the indices below \<open>k\<close>, the last of them being
  \<open>k - 1\<close>; the sensor count is 1 plus the number of distinct sensors among the \<open>k\<close>
  handles; sleep, wake and update make one call per canonical index, and return the
  conjunction (for update, the last) of the results; and setup ends each of the \<open>k\<close>
  handles with exactly one outcome (\<open>os\<close>), a successful sensor setup call or the
  message that it failed, and then makes one attach call for each of the \<open>k\<close> handles.
\<close>

theorem init_count_modulo_256:
  fixes c :: int and l :: "Variable list" and hw :: hardware and w :: world
  defines "k \<equiv> nat (c mod 256)"
    and "a \<equiv> init c l"
    and "t \<equiv> init (c mod 256) (take (nat (c mod 256)) l)"
  defines "slept \<equiv> answers hw (calls w)
      (map (\<lambda>i. SensorSleep (parentSensor (l ! i))) (canonicalIndices a))"
    and "woken \<equiv> answers hw (calls w)
      (map (\<lambda>i. SensorWake (parentSensor (l ! i))) (canonicalIndices a))"
    and "updated \<equiv> answers hw (calls w)
      (map (\<lambda>i. SensorUpdate (parentSensor (l ! i))) (canonicalIndices a))"
  shows
  "uint (m_variableCount a) = c mod 256 \<and>
   getVariableCount a = c mod 256 \<and>
   getSensorCount a = getSensorCount t \<and>
   setupSensors hw a w = setupSensors hw t w \<and>
   sensorsSleep hw a w = sensorsSleep hw t w \<and>
   sensorsWake hw a w = sensorsWake hw t w \<and>
   updateAllSensors hw a w = updateAllSensors hw t w \<and>
   generateSensorDataCSV a = generateSensorDataCSV t \<and>
   (k \<le> length l \<longrightarrow>
      length (take k l) = k \<and>
      generateSensorDataCSV a = Some (csv_join (map getValueString (take k l))) \<and>
      canonicalIndices a =
        filter (\<lambda>i. \<forall>j. i < j \<and> j < k \<longrightarrow> sensorKey (l ! j) \<noteq> sensorKey (l ! i)) [0..<k] \<and>
      (0 < k \<longrightarrow> canonicalIndices a \<noteq> [] \<and> last (canonicalIndices a) = k - 1) \<and>
      getSensorCount a = Some (1 + int (length (canonicalIndices a))) \<and>
      getSensorCount a = Some (1 + int (card (sensorKey ` set (take k l)))) \<and>
      sensorsSleep hw a w = Some ((\<forall>e \<in> set slept. snd e), w\<lparr>calls := calls w @ slept\<rparr>) \<and>
      sensorsWake hw a w = Some ((\<forall>e \<in> set woken. snd e), w\<lparr>calls := calls w @ woken\<rparr>) \<and>
      updateAllSensors hw a w =
        Some (if updated = [] then True else snd (last updated),
              w\<lparr>calls := calls w @ updated\<rparr>) \<and>
      (\<exists>S F A os.
         setupSensors hw a w =
           Some (F = [] \<and> (\<forall>e \<in> set A. snd e),
                 w\<lparr>calls := calls w @ S @ A,
                   serial := serial w @ [BeginningSetup] @ F @
                     (if F = [] \<and> (\<forall>e \<in> set A. snd e) then [SetupSuccess] else [])\<rparr>) \<and>
         length os = k \<and>
         map fst (filter snd S) =
           map (\<lambda>p. SensorSetup (parentSensor (fst p))) (filter snd (zip (take k l) os)) \<and>
         F = map (\<lambda>p. SetupFailed (getDreamHost (fst p)))
               (filter (\<lambda>p. \<not> snd p) (zip (take k l) os)) \<and>
         (\<forall>e \<in> set S. \<exists>j < k. fst e = SensorSetup (parentSensor (l ! j))) \<and>
         A = answers hw (calls w @ S) (map VariableSetup (take k l))))"
proof -
  note ag = init_truncated_agree [where c = c and l = l]
  have n: "unat (m_variableCount a) = k" and ls: "m_variableList a = l"
    by (simp_all add: a_def k_def init_fields)
  have 1: "uint (m_variableCount a) = c mod 256"
    by (simp add: a_def init_def uint_word_of_int)
  then have 2: "getVariableCount a = c mod 256"
    by (simp add: getVariableCount_def)
  have 3: "getSensorCount a = getSensorCount t"
    unfolding getSensorCount_def a_def t_def by (rule sensorCount_loop_agree [OF ag])
  have 4: "setupSensors hw a w = setupSensors hw t w"
    unfolding setupSensors_def a_def t_def
    by (simp add: setup_loop_agree [OF ag] attach_loop_agree [OF ag]
        split: option.splits prod.splits)
  have 5: "sensorsSleep hw a w = sensorsSleep hw t w"
    unfolding sensorsSleep_def a_def t_def by (rule sleep_loop_agree [OF ag])
  have 6: "sensorsWake hw a w = sensorsWake hw t w"
    unfolding sensorsWake_def a_def t_def by (rule wake_loop_agree [OF ag])
  have 7: "updateAllSensors hw a w = updateAllSensors hw t w"
    unfolding updateAllSensors_def a_def t_def by (simp add: update_loop_agree [OF ag])
  have 8: "generateSensorDataCSV a = generateSensorDataCSV t"
    unfolding generateSensorDataCSV_def a_def t_def by (rule csv_loop_agree [OF ag])
  have 9: "k \<le> length l \<longrightarrow>
      length (take k l) = k \<and>
      generateSensorDataCSV a = Some (csv_join (map getValueString (take k l))) \<and>
      canonicalIndices a =
        filter (\<lambda>i. \<forall>j. i < j \<and> j < k \<longrightarrow> sensorKey (l ! j) \<noteq> sensorKey (l ! i)) [0..<k] \<and>
      (0 < k \<longrightarrow> canonicalIndices a \<noteq> [] \<and> last (canonicalIndices a) = k - 1) \<and>
      getSensorCount a = Some (1 + int (length (canonicalIndices a))) \<and>
      getSensorCount a = Some (1 + int (card (sensorKey ` set (take k l)))) \<and>
      sensorsSleep hw a w = Some ((\<forall>e \<in> set slept. snd e), w\<lparr>calls := calls w @ slept\<rparr>) \<and>
      sensorsWake hw a w = Some ((\<forall>e \<in> set woken. snd e), w\<lparr>calls := calls w @ woken\<rparr>) \<and>
      updateAllSensors hw a w =
        Some (if updated = [] then True else snd (last updated),
              w\<lparr>calls := calls w @ updated\<rparr>) \<and>
      (\<exists>S F A os.
         setupSensors hw a w =
           Some (F = [] \<and> (\<forall>e \<in> set A. snd e),
                 w\<lparr>calls := calls w @ S @ A,
                   serial := serial w @ [BeginningSetup] @ F @
                     (if F = [] \<and> (\<forall>e \<in> set A. snd e) then [SetupSuccess] else [])\<rparr>) \<and>
         length os = k \<and>
         map fst (filter snd S) =
           map (\<lambda>p. SensorSetup (parentSensor (fst p))) (filter snd (zip (take k l) os)) \<and>
         F = map (\<lambda>p. SetupFailed (getDreamHost (fst p)))
               (filter (\<lambda>p. \<not> snd p) (zip (take k l) os)) \<and>
         (\<forall>e \<in> set S. \<exists>j < k. fst e = SensorSetup (parentSensor (l ! j))) \<and>
         A = answers hw (calls w @ S) (map VariableSetup (take k l)))"
  proof
    assume le: "k \<le> length l"
    then have wf: "unat (m_variableCount a) \<le> length (m_variableList a)"
      by (simp add: n ls)
    have a1: "length (take k l) = k" using le by simp
    have a2: "generateSensorDataCSV a = Some (csv_join (map getValueString (take k l)))"
      using generateSensorDataCSV_spec [OF wf] by (simp add: n ls)
    have a3: "canonicalIndices a =
        filter (\<lambda>i. \<forall>j. i < j \<and> j < k \<longrightarrow> sensorKey (l ! j) \<noteq> sensorKey (l ! i)) [0..<k]"
      using canonicalIndices_explicit [OF wf] by (simp add: n ls)
    have a4: "0 < k \<longrightarrow> canonicalIndices a \<noteq> [] \<and> last (canonicalIndices a) = k - 1"
      using canonical_last [OF wf] by (simp add: n)
    have a5: "getSensorCount a = Some (1 + int (length (canonicalIndices a)))"
      using sensorCount_loop_spec [OF wf, of 0 1]
      by (simp add: getSensorCount_def canonicalIndices_def)
    have a6: "getSensorCount a = Some (1 + int (card (sensorKey ` set (take k l))))"
      using a5 canonical_card [OF wf] by (simp add: n ls)
    have a7: "sensorsSleep hw a w =
        Some ((\<forall>e \<in> set slept. snd e), w\<lparr>calls := calls w @ slept\<rparr>)"
      using sleep_loop_spec [OF wf, of 0 hw True w]
      by (simp add: sensorsSleep_def canonicalIndices_def slept_def ls)
    have a8: "sensorsWake hw a w =
        Some ((\<forall>e \<in> set woken. snd e), w\<lparr>calls := calls w @ woken\<rparr>)"
      using wake_loop_spec [OF wf, of 0 hw True w]
      by (simp add: sensorsWake_def canonicalIndices_def woken_def ls)
    have a9: "updateAllSensors hw a w =
        Some (if updated = [] then True else snd (last updated),
              w\<lparr>calls := calls w @ updated\<rparr>)"
      using update_loop_spec [OF wf, of hw 0 True w]
      by (simp add: updateAllSensors_def canonicalIndices_def updated_def ls)
    have a10: "\<exists>S F A os.
         setupSensors hw a w =
           Some (F = [] \<and> (\<forall>e \<in> set A. snd e),
                 w\<lparr>calls := calls w @ S @ A,
                   serial := serial w @ [BeginningSetup] @ F @
                     (if F = [] \<and> (\<forall>e \<in> set A. snd e) then [SetupSuccess] else [])\<rparr>) \<and>
         length os = k \<and>
         map fst (filter snd S) =
           map (\<lambda>p. SensorSetup (parentSensor (fst p))) (filter snd (zip (take k l) os)) \<and>
         F = map (\<lambda>p. SetupFailed (getDreamHost (fst p)))
               (filter (\<lambda>p. \<not> snd p) (zip (take k l) os)) \<and>
         (\<forall>e \<in> set S. \<exists>j < k. fst e = SensorSetup (parentSensor (l ! j))) \<and>
         A = answers hw (calls w @ S) (map VariableSetup (take k l))"
      using setupSensors_outcomes [OF wf, of hw w] unfolding n ls .
    from a1 a2 a3 a4 a5 a6 a7 a8 a9 a10
    show "length (take k l) = k \<and>
      generateSensorDataCSV a = Some (csv_join (map getValueString (take k l))) \<and>
      canonicalIndices a =
        filter (\<lambda>i. \<forall>j. i < j \<and> j < k \<longrightarrow> sensorKey (l ! j) \<noteq> sensorKey (l ! i)) [0..<k] \<and>
      (0 < k \<longrightarrow> canonicalIndices a \<noteq> [] \<and> last (canonicalIndices a) = k - 1) \<and>
      getSensorCount a = Some (1 + int (length (canonicalIndices a))) \<and>
      getSensorCount a = Some (1 + int (card (sensorKey ` set (take k l)))) \<and>
      sensorsSleep hw a w = Some ((\<forall>e \<in> set slept. snd e), w\<lparr>calls := calls w @ slept\<rparr>) \<and>
      sensorsWake hw a w = Some ((\<forall>e \<in> set woken. snd e), w\<lparr>calls := calls w @ woken\<rparr>) \<and>
      updateAllSensors hw a w =
        Some (if updated = [] then True else snd (last updated),
              w\<lparr>calls := calls w @ updated\<rparr>) \<and>
      (\<exists>S F A os.
         setupSensors hw a w =
           Some (F = [] \<and> (\<forall>e \<in> set A. snd e),
                 w\<lparr>calls := calls w @ S @ A,
                   serial := serial w @ [BeginningSetup] @ F @
                     (if F = [] \<and> (\<forall>e \<in> set A. snd e) then [SetupSuccess] else [])\<rparr>) \<and>
         length os = k \<and>
         map fst (filter snd S) =
           map (\<lambda>p. SensorSetup (parentSensor (fst p))) (filter snd (zip (take k l) os)) \<and>
         F = map (\<lambda>p. SetupFailed (getDreamHost (fst p)))
               (filter (\<lambda>p. \<not> snd p) (zip (take k l) os)) \<and>
         (\<forall>e \<in> set S. \<exists>j < k. fst e = SensorSetup (parentSensor (l ! j))) \<and>
         A = answers hw (calls w @ S) (map VariableSetup (take k l)))"
      by (intro conjI)
  qed
  from 1 2 3 4 5 6 7 8 9 show ?thesis by (intro conjI)
qed

theorem init_count_modulo_256_witness:
  "getVariableCount (init 258 [var1, var2, var3]) = 2 \<and>
   generateSensorDataCSV (init 258 [var1, var2, var3]) = Some ''v1, v2'' \<and>
   getVariableCount (init (- 1) [var1, var2, var3]) = 255 \<and>
   canonicalIndices (init 258 [var1, var2, var3]) = [1] \<and>
   getSensorCount (init 258 [var1, var2, var3]) = Some 2 \<and>
   sensorsSleep allSucceed (init 258 [var1, var2, var3]) world0 =
     Some (True, \<lparr> calls = [(SensorSleep sensorA, True)], serial = [] \<rparr>) \<and>
   updateAllSensors allSucceed (init 258 [var1, var2, var3]) world0 =
     Some (True, \<lparr> calls = [(SensorUpdate sensorA, True)], serial = [] \<rparr>)"
proof -
  let ?L = "[var1, var2, var3]"
  note th = init_count_modulo_256 [where c = 258 and l = ?L and hw = allSucceed and w = world0]
  have k: "nat (258 mod 256) = 2" "nat (258 mod 256) \<le> length ?L" by simp_all
  have g: "getVariableCount (init 258 ?L) = 2"
    using th by simp
  from th have imp: "nat (258 mod 256) \<le> length ?L \<longrightarrow>
      length (take (nat (258 mod 256)) ?L) = nat (258 mod 256) \<and>
      generateSensorDataCSV (init 258 ?L) =
        Some (csv_join (map getValueString (take (nat (258 mod 256)) ?L))) \<and>
      canonicalIndices (init 258 ?L) =
        filter (\<lambda>i. \<forall>j. i < j \<and> j < nat (258 mod 256) \<longrightarrow>
                  sensorKey (?L ! j) \<noteq> sensorKey (?L ! i)) [0..<nat (258 mod 256)] \<and>
      (0 < nat (258 mod 256) \<longrightarrow> canonicalIndices (init 258 ?L) \<noteq> [] \<and>
         last (canonicalIndices (init 258 ?L)) = nat (258 mod 256) - 1) \<and>
      getSensorCount (init 258 ?L) = Some (1 + int (length (canonicalIndices (init 258 ?L)))) \<and>
      getSensorCount (init 258 ?L) =
        Some (1 + int (card (sensorKey ` set (take (nat (258 mod 256)) ?L)))) \<and>
      sensorsSleep allSucceed (init 258 ?L) world0 =
        Some ((\<forall>e \<in> set (answers allSucceed (calls world0)
                 (map (\<lambda>i. SensorSleep (parentSensor (?L ! i))) (canonicalIndices (init 258 ?L)))). snd e),
              world0\<lparr>calls := calls world0 @ answers allSucceed (calls world0)
                 (map (\<lambda>i. SensorSleep (parentSensor (?L ! i))) (canonicalIndices (init 258 ?L)))\<rparr>) \<and>
      sensorsWake allSucceed (init 258 ?L) world0 =
        Some ((\<forall>e \<in> set (answers allSucceed (calls world0)
                 (map (\<lambda>i. SensorWake (parentSensor (?L ! i))) (canonicalIndices (init 258 ?L)))). snd e),
              world0\<lparr>calls := calls world0 @ answers allSucceed (calls world0)
                 (map (\<lambda>i. SensorWake (parentSensor (?L ! i))) (canonicalIndices (init 258 ?L)))\<rparr>) \<and>
      updateAllSensors allSucceed (init 258 ?L) world0 =
        Some (if answers allSucceed (calls world0)
                 (map (\<lambda>i. SensorUpdate (parentSensor (?L ! i))) (canonicalIndices (init 258 ?L))) = []
              then True
              else snd (last (answers allSucceed (calls world0)
                 (map (\<lambda>i. SensorUpdate (parentSensor (?L ! i))) (canonicalIndices (init 258 ?L))))),
              world0\<lparr>calls := calls world0 @ answers allSucceed (calls world0)
                 (map (\<lambda>i. SensorUpdate (parentSensor (?L ! i))) (canonicalIndices (init 258 ?L)))\<rparr>)"
    by blast
  with k(2) have
    csv: "generateSensorDataCSV (init 258 ?L) =
        Some (csv_join (map getValueString (take (nat (258 mod 256)) ?L)))"
    and can: "canonicalIndices (init 258 ?L) =
        filter (\<lambda>i. \<forall>j. i < j \<and> j < nat (258 mod 256) \<longrightarrow>
                  sensorKey (?L ! j) \<noteq> sensorKey (?L ! i)) [0..<nat (258 mod 256)]"
    and cnt: "getSensorCount (init 258 ?L) = Some (1 + int (length (canonicalIndices (init 258 ?L))))"
    and slp: "sensorsSleep allSucceed (init 258 ?L) world0 =
        Some ((\<forall>e \<in> set (answers allSucceed (calls world0)
                 (map (\<lambda>i. SensorSleep (parentSensor (?L ! i))) (canonicalIndices (init 258 ?L)))). snd e),
              world0\<lparr>calls := calls world0 @ answers allSucceed (calls world0)
                 (map (\<lambda>i. SensorSleep (parentSensor (?L ! i))) (canonicalIndices (init 258 ?L)))\<rparr>)"
    and upd: "updateAllSensors allSucceed (init 258 ?L) world0 =
        Some (if answers allSucceed (calls world0)
                 (map (\<lambda>i. SensorUpdate (parentSensor (?L ! i))) (canonicalIndices (init 258 ?L))) = []
              then True
              else snd (last (answers allSucceed (calls world0)
                 (map (\<lambda>i. SensorUpdate (parentSensor (?L ! i))) (canonicalIndices (init 258 ?L))))),
              world0\<lparr>calls := calls world0 @ answers allSucceed (calls world0)
                 (map (\<lambda>i. SensorUpdate (parentSensor (?L ! i))) (canonicalIndices (init 258 ?L)))\<rparr>)"
    by blast+
  have csv': "generateSensorDataCSV (init 258 ?L) = Some ''v1, v2''"
    using csv by (simp add: var1_def var2_def)
  have p0: "\<not> (\<forall>j. (0::nat) < j \<and> j < 2 \<longrightarrow> sensorKey (?L ! j) \<noteq> sensorKey (?L ! 0))"
    by (auto intro!: exI [of _ 1] simp add: example_keys)
  have p1: "\<forall>j. (1::nat) < j \<and> j < 2 \<longrightarrow> sensorKey (?L ! j) \<noteq> sensorKey (?L ! 1)"
    by auto
  have "[0..<2] = [0, 1::nat]" by (simp add: upt_rec)
  then have can': "canonicalIndices (init 258 ?L) = [1]"
    using can p0 p1 by (simp add: k(1))
  have cnt': "getSensorCount (init 258 ?L) = Some 2"
    using cnt by (simp add: can')
  have slp': "sensorsSleep allSucceed (init 258 ?L) world0 =
     Some (True, \<lparr> calls = [(SensorSleep sensorA, True)], serial = [] \<rparr>)"
    using slp by (simp add: can' example_parents allSucceed_def world0_def)
  have upd': "updateAllSensors allSucceed (init 258 ?L) world0 =
     Some (True, \<lparr> calls = [(SensorUpdate sensorA, True)], serial = [] \<rparr>)"
    using upd by (simp add: can' example_parents allSucceed_def world0_def)
  have m1: "getVariableCount (init (- 1) ?L) = 255"
    using init_count_modulo_256 [where c = "- 1" and l = ?L and hw = allSucceed and w = world0]
    by simp
  from g csv' m1 can' cnt' slp' upd' show ?thesis by (intro conjI)
qed

text \<open>
  C9.  On the clock modelled from the spec, for a positive interval length in minutes:
  \<open>checkInterval()\<close> is true if and only if the current epoch time modulo the interval
  length in seconds is zero or the current epoch time is within the first 15 minutes
  since logging started; \<open>checkMarkedInterval()\<close> is the same test on the marked epoch
  time, with the same 15-minute window on the current time; \<open>markTime()\<close> marks the
  current epoch time; the epoch time is the RTC's count plus \<open>EPOCH_TIME_OFF\<close> plus the
  timezone and RTC offsets.  On the source: \<open>EPOCH_TIME_OFF\<close> is 946684800, which is
  the number of seconds from 1970-01-01 00:00:00 to 2000-01-01 00:00:00.
\<close>

theorem interval_test:
  assumes "0 < loggingIntervalMinutes lg"
  shows "(checkInterval lg rtcSeconds \<longleftrightarrow>
            getNowEpoch lg rtcSeconds mod (60 * int (loggingIntervalMinutes lg)) = 0 \<or>
            (loggingStartEpoch lg \<le> getNowEpoch lg rtcSeconds \<and>
             getNowEpoch lg rtcSeconds < loggingStartEpoch lg + 15 * 60)) \<and>
         (checkMarkedInterval lg rtcSeconds \<longleftrightarrow>
            markedEpochTime lg mod (60 * int (loggingIntervalMinutes lg)) = 0 \<or>
            (loggingStartEpoch lg \<le> getNowEpoch lg rtcSeconds \<and>
             getNowEpoch lg rtcSeconds < loggingStartEpoch lg + 15 * 60)) \<and>
         markedEpochTime (markTime lg rtcSeconds) = getNowEpoch lg rtcSeconds \<and>
         getNowEpoch lg rtcSeconds =
           rtcSeconds + EPOCH_TIME_OFF + 3600 * timeZone lg + 3600 * tzOffset lg \<and>
         EPOCH_TIME_OFF = 946684800 \<and>
         EPOCH_TIME_OFF = secondsBetweenYears 1970 2000"
  by (simp add: checkInterval_def checkMarkedInterval_def withinFirst15Minutes_def
      markTime_def getNowEpoch_def EPOCH_TIME_OFF_def seconds_1970_2000)

theorem interval_test_witness:
  "checkInterval exampleLogger 536631300 \<and>
   \<not> checkInterval exampleLogger 536630820 \<and>
   checkInterval exampleLogger 536544420 \<and>
   checkMarkedInterval (markTime exampleLogger 536631300) 536631309 \<and>
   \<not> checkMarkedInterval (markTime exampleLogger 536630820) 536630829"
proof -
  have pos: "0 < loggingIntervalMinutes exampleLogger"
    by (simp add: exampleLogger_def)
  have pos': "0 < loggingIntervalMinutes (markTime exampleLogger r)" for r
    by (simp add: exampleLogger_def markTime_def)
  have now: "getNowEpoch exampleLogger r = r + 946684800" for r
    by (simp add: getNowEpoch_def exampleLogger_def EPOCH_TIME_OFF_def)
  have now': "getNowEpoch (markTime exampleLogger r) r' = r' + 946684800" for r r'
    by (simp add: getNowEpoch_def exampleLogger_def EPOCH_TIME_OFF_def markTime_def)
  have f: "loggingIntervalMinutes exampleLogger = 15" "loggingStartEpoch exampleLogger = 1483228800"
    "loggingIntervalMinutes (markTime exampleLogger r) = 15"
    "loggingStartEpoch (markTime exampleLogger r) = 1483228800" for r
    by (simp_all add: exampleLogger_def markTime_def)
  have m: "markedEpochTime (markTime exampleLogger r) = r + 946684800" for r
    by (simp add: markTime_def now)
  have "checkInterval exampleLogger 536631300"
    using interval_test [OF pos, of 536631300] by (simp add: now f)
  moreover have "\<not> checkInterval exampleLogger 536630820"
    using interval_test [OF pos, of 536630820] by (simp add: now f)
  moreover have "checkInterval exampleLogger 536544420"
    using interval_test [OF pos, of 536544420] by (simp add: now f)
  moreover have "checkMarkedInterval (markTime exampleLogger 536631300) 536631309"
    using interval_test [OF pos', of 536631300 536631309] by (simp add: now' f m)
  moreover have "\<not> checkMarkedInterval (markTime exampleLogger 536630820) 536630829"
    using interval_test [OF pos', of 536630820 536630829] by (simp add: now' f m)
  ultimately show ?thesis by simp
qed

end
